theory Spec2Isabelle
  imports Complex_Main
begin

section \<open>The data model of index.js\<close>

text \<open>
  Numbers. JavaScript numbers are IEEE doubles; the model takes coordinates, the radius
  and the extent as (finite) real numbers, counts as naturals and zoom levels as
  integers. The value \<open>Infinity\<close> occurs in the source in two places only, and both
  are written out: as the initial value of a node's \<open>zoom\<close> field (type \<open>zoomval\<close>)
  and at the singularities of \<open>latY\<close>. Rounding is not modelled.

  An exception of the source (reading a property of \<open>undefined\<close>) is the value
  \<open>Inl TypeError\<close>.
\<close>

datatype error = TypeError

datatype zoomval = Fin int | Infinity

text \<open>\<open>a.zoom <= z\<close> and \<open>z < b.zoom\<close> on a field that holds a zoom level or Infinity.\<close>

fun zoom_le :: "zoomval \<Rightarrow> int \<Rightarrow> bool" where
  "zoom_le (Fin a) z = (a \<le> z)"
| "zoom_le Infinity z = False"

fun lt_zoom :: "int \<Rightarrow> zoomval \<Rightarrow> bool" where
  "lt_zoom z (Fin a) = (z < a)"
| "lt_zoom z Infinity = True"

text \<open>
  An input feature: \<open>p.geometry.coordinates\<close> is a pair of numbers \<open>[lng, lat]\<close>, or
  the geometry (or its coordinates) is missing, which is \<open>None\<close>; \<open>payload\<close> stands
  for the rest of the feature, which the code passes through.
\<close>

record feature =
  coordinates :: "(real \<times> real) option"
  payload :: nat

text \<open>
  Nodes are JavaScript objects, shared by reference between the arrays of clusters, the
  R-trees and the \<open>children\<close> lists, and their \<open>zoom\<close> field is mutated in place. The
  model keeps them in a store: a reference is an index into \<open>nodes\<close>. The fields are
  those of \<open>createCluster\<close>; \<open>cx\<close>, \<open>cy\<close> are the source's \<open>x\<close>, \<open>y\<close>.
\<close>

type_synonym ref = nat

record node =
  cx :: real
  cy :: real
  wx :: real
  wy :: real
  zoom :: zoomval
  children :: "ref list option"
  point :: "feature option"
  numPoints :: nat

text \<open>
  The store also keeps \<open>zlog\<close>, the history of the assignments \<open>p.zoom = zoom\<close> and
  \<open>b.zoom = zoom\<close> in the order in which they happen (node, value written). The code
  never reads it; it is there so that statements about how often and with which values
  the field is written can be made.
\<close>

record store =
  nodes :: "node list"
  zlog :: "(ref \<times> int) list"

record options =
  minZoom :: int
  maxZoom :: int
  radius :: real
  extent :: real
  nodeSize :: nat
  logging :: bool

text \<open>The object \<open>this\<close>: its options and the array \<open>this.trees\<close>, one R-tree per index.\<close>

record supercluster =
  opts :: options
  trees :: "ref list list"

definition default_options :: options where
  "default_options =
     \<lparr>minZoom = 0, maxZoom = 16, radius = 40, extent = 512, nodeSize = 16, logging = False\<rparr>"

section \<open>The R-tree (rbush)\<close>

text \<open>
  Modelled from the spec: the package rbush is required by index.js and is not part of
  the repository. Section 4.2 of the spec gives its interface: a bulk load of a node set,
  and a range search that returns every node whose point lies within the box (the
  format \<open>['.x', '.y', '.x', '.y']\<close> makes each item the zero-area box at its
  \<open>x\<close>, \<open>y\<close>). A tree is modelled as the list of the references loaded into it, and a
  search returns the matching ones in the order of loading (rbush promises no order).
\<close>

definition rbush_load :: "ref list \<Rightarrow> ref list \<Rightarrow> ref list" where
  "rbush_load t items = t @ items"

definition in_bbox :: "real \<times> real \<times> real \<times> real \<Rightarrow> node \<Rightarrow> bool" where
  "in_bbox bb b =
     (case bb of (minX, minY, maxX, maxY) \<Rightarrow>
        minX \<le> cx b \<and> minY \<le> cy b \<and> cx b \<le> maxX \<and> cy b \<le> maxY)"

definition rbush_search :: "store \<Rightarrow> ref list \<Rightarrow> real \<times> real \<times> real \<times> real \<Rightarrow> ref list" where
  "rbush_search h t bb = filter (\<lambda>b. in_bbox bb (nodes h ! b)) t"

section \<open>The projection\<close>

text \<open>
  The four functions over the reals, as the formulas of the source read. The rounding that
  the doubles of the source add to every operation is left out here; for \<open>lngX\<close> and
  \<open>xLng\<close> it is written out in \<open>lngX_double\<close> and \<open>xLng_double\<close> below, and the round trip
  through them is stated on those.
\<close>

definition lngX :: "real \<Rightarrow> real" where
  "lngX lng = lng / 360 + 0.5"

text \<open>
  \<open>latY\<close>: where \<open>sin\<close> is 1 the source divides by zero, \<open>Math.log(Infinity)\<close> is
  \<open>Infinity\<close> and \<open>y\<close> is \<open>-Infinity\<close>, which is below 0; where \<open>sin\<close> is -1,
  \<open>Math.log(0)\<close> is \<open>-Infinity\<close> and \<open>y\<close> is \<open>Infinity\<close>, which is above 1.
\<close>

definition latY :: "real \<Rightarrow> real" where
  "latY lat =
     (let s = sin (lat * pi / 180) in
      if s = 1 then 0
      else if s = - 1 then 1
      else
        let y = 0.5 - 0.25 * ln ((1 + s) / (1 - s)) / pi in
        if y < 0 then 0 else if y > 1 then 1 else y)"

definition xLng :: "real \<Rightarrow> real" where
  "xLng x = (x - 0.5) * 360"

definition yLat :: "real \<Rightarrow> real" where
  "yLat y = (let y2 = (180 - y * 360) * pi / 180 in 360 * arctan (exp y2) / pi - 90)"

text \<open>The value \<open>y\<close> of \<open>latY\<close> before it is clamped (line 166), where \<open>sin\<close> is not 1 or -1.\<close>

definition rawY :: "real \<Rightarrow> real" where
  "rawY lat =
     0.5 - 0.25 * ln ((1 + sin (lat * pi / 180)) / (1 - sin (lat * pi / 180))) / pi"

section \<open>Double-precision arithmetic\<close>

text \<open>
  The numbers of the source are IEEE 754 doubles: an arithmetic operation returns its exact
  result rounded to the nearest double, ties to the even significand. \<open>expo x\<close> is the
  binary exponent of \<open>x\<close>, \<open>ulp x\<close> the distance between the doubles around \<open>x\<close> (52
  fraction bits, subnormal below \<open>2 powi (- 1022)\<close>), \<open>rne\<close> rounds to the nearest whole
  number, ties to even, and \<open>fl x\<close> is the double that an operation with exact result \<open>x\<close>
  returns; \<open>None\<close> stands for a result that is not finite (the rounded value reaches
  \<open>2 ^ 1024\<close> and the operation returns an infinity).
\<close>

definition expo :: "real \<Rightarrow> int" where
  "expo x = \<lfloor>log 2 \<bar>x\<bar>\<rfloor>"

definition ulp :: "real \<Rightarrow> real" where
  "ulp x = 2 powi (max (expo x) (- 1022) - 52)"

definition rne :: "real \<Rightarrow> int" where
  "rne y =
     (if y - of_int \<lfloor>y\<rfloor> < 1 / 2 then \<lfloor>y\<rfloor>
      else if 1 / 2 < y - of_int \<lfloor>y\<rfloor> then \<lfloor>y\<rfloor> + 1
      else if even \<lfloor>y\<rfloor> then \<lfloor>y\<rfloor> else \<lfloor>y\<rfloor> + 1)"

definition fl :: "real \<Rightarrow> real option" where
  "fl x =
     (if x = 0 then Some 0
      else
        let r = of_int (rne (x / ulp x)) * ulp x
        in if \<bar>r\<bar> < 2 ^ 1024 then Some r else None)"

text \<open>
  \<open>lngX\<close> and \<open>xLng\<close> with the rounding of each of their two operations written out, for
  an argument that is a double. The constants 360 and 0.5 are doubles. An infinity stays an
  infinity under \<open>+ 0.5\<close>, \<open>- 0.5\<close> and \<open>* 360\<close>, so \<open>None\<close> is passed on.
\<close>

definition lngX_double :: "real \<Rightarrow> real option" where
  "lngX_double lng = Option.bind (fl (lng / 360)) (\<lambda>q. fl (q + 0.5))"

definition xLng_double :: "real \<Rightarrow> real option" where
  "xLng_double x = Option.bind (fl (x - 0.5)) (\<lambda>d. fl (d * 360))"

text \<open>\<open>xLng(lngX(l))\<close> as the source computes it.\<close>

definition roundtrip_lng :: "real \<Rightarrow> real option" where
  "roundtrip_lng l = Option.bind (lngX_double l) xLng_double"

section \<open>Nodes\<close>

definition createCluster :: "real \<Rightarrow> real \<Rightarrow> node" where
  "createCluster x y =
     \<lparr>cx = x, cy = y, wx = x, wy = y, zoom = Infinity, children = None, point = None,
      numPoints = 1\<rparr>"

definition createPointCluster :: "feature \<Rightarrow> error + node" where
  "createPointCluster p =
     (case coordinates p of
        None \<Rightarrow> Inl TypeError
      | Some (lng, lat) \<Rightarrow> Inr ((createCluster (lngX lng) (latY lat))\<lparr>point := Some p\<rparr>))"

definition distSq :: "node \<Rightarrow> node \<Rightarrow> real" where
  "distSq a b = (let dx = cx a - cx b; dy = cy a - cy b in dx * dx + dy * dy)"

text \<open>A new object gets the next free reference; \<open>set_zoom\<close> is the assignment to \<open>zoom\<close>.\<close>

definition alloc :: "store \<Rightarrow> node \<Rightarrow> store \<times> ref" where
  "alloc h n = (h\<lparr>nodes := nodes h @ [n]\<rparr>, length (nodes h))"

definition set_zoom :: "store \<Rightarrow> ref \<Rightarrow> int \<Rightarrow> store" where
  "set_zoom h i z =
     h\<lparr>nodes := (nodes h)[i := (nodes h ! i)\<lparr>zoom := Fin z\<rparr>], zlog := zlog h @ [(i, z)]\<rparr>"

section \<open>The constructor\<close>

text \<open>
  The constructor merges the options it is given over the defaults (\<open>extend\<close>); the model
  takes the merged options. \<open>nodeSize\<close> is handed to rbush and \<open>log\<close> (here \<open>logging\<close>)
  only switches the timing output on, which is not modelled.

  \<open>this.trees[k]\<close> for an integer \<open>k\<close>, and for any number: \<open>undefined\<close> is \<open>None\<close>.
\<close>

definition tree_at :: "ref list list \<Rightarrow> int \<Rightarrow> ref list option" where
  "tree_at ts k = (if 0 \<le> k \<and> k < int (length ts) then Some (ts ! nat k) else None)"

definition trees_index :: "ref list list \<Rightarrow> real \<Rightarrow> ref list option" where
  "trees_index ts k = (if of_int \<lfloor>k\<rfloor> = k then tree_at ts \<lfloor>k\<rfloor> else None)"

definition initTrees :: "options \<Rightarrow> ref list list" where
  "initTrees os = replicate (nat (maxZoom os + 2)) []"

definition SuperCluster :: "options \<Rightarrow> supercluster" where
  "SuperCluster os = \<lparr>opts = os, trees = initTrees os\<rparr>"

definition empty_store :: store where
  "empty_store = \<lparr>nodes = [], zlog = []\<rparr>"

section \<open>The merge pass\<close>

text \<open>
  \<open>Math.pow(2, zoom)\<close> for an integer zoom, and the radius \<open>r\<close> of \<open>_getNeighbors\<close>. With an
  extent of zero the source divides by zero (\<open>r\<close> is infinite or NaN); the model is for an
  extent other than zero.
\<close>

definition pow2 :: "int \<Rightarrow> real" where
  "pow2 z = (if 0 \<le> z then 2 ^ nat z else 1 / 2 ^ nat (- z))"

definition search_radius :: "options \<Rightarrow> int \<Rightarrow> real" where
  "search_radius os z = radius os / (extent os * pow2 z)"

definition getNeighbors :: "supercluster \<Rightarrow> store \<Rightarrow> ref \<Rightarrow> int \<Rightarrow> error + ref list" where
  "getNeighbors this h i z =
     (let p = nodes h ! i; r = search_radius (opts this) z in
      (case tree_at (trees this) (z + 1) of
         None \<Rightarrow> Inl TypeError
       | Some t \<Rightarrow>
           let bboxNeighbors = rbush_search h t (cx p - r, cy p - r, cx p + r, cy p + r) in
           Inr (filter (\<lambda>b. lt_zoom z (zoom (nodes h ! b)) \<and> distSq p (nodes h ! b) \<le> r * r)
                  bboxNeighbors)))"

text \<open>The inner loop over the neighbors (lines 95 to 101): the accumulators are \<open>wx\<close>, \<open>wy\<close>, \<open>numPoints\<close>.\<close>

fun absorb :: "int \<Rightarrow> ref list \<Rightarrow> store \<times> real \<times> real \<times> nat \<Rightarrow> store \<times> real \<times> real \<times> nat" where
  "absorb z [] acc = acc"
| "absorb z (b # bs) (h, sx, sy, n) =
     (let nb = nodes h ! b in
      absorb z bs
        (set_zoom h b z, sx + cx nb * real (numPoints nb), sy + cy nb * real (numPoints nb),
         n + numPoints nb))"

text \<open>The body of the outer loop, for the point \<open>i\<close>; \<open>clusters\<close> is the output so far.\<close>

fun visit :: "supercluster \<Rightarrow> int \<Rightarrow> ref \<Rightarrow> store \<times> ref list \<Rightarrow> error + (store \<times> ref list)" where
  "visit this z i (h, clusters) =
     (if zoom_le (zoom (nodes h ! i)) z then Inr (h, clusters)
      else
        let h1 = set_zoom h i z in
        (case getNeighbors this h1 i z of
           Inl e \<Rightarrow> Inl e
         | Inr neighbors \<Rightarrow>
             if neighbors = [] then Inr (h1, clusters @ [i])
             else
               let p = nodes h1 ! i in
               (case absorb z neighbors
                       (h1, wx p * real (numPoints p), wy p * real (numPoints p), numPoints p) of
                  (h2, sx, sy, n) \<Rightarrow>
                    let cluster =
                          (createCluster (cx p) (cy p))
                            \<lparr>children := Some neighbors, numPoints := n,
                             wx := sx / real n, wy := sy / real n\<rparr>
                    in (case alloc h2 cluster of (h3, c) \<Rightarrow> Inr (h3, clusters @ [c])))))"

fun cluster_loop :: "supercluster \<Rightarrow> int \<Rightarrow> ref list \<Rightarrow> store \<times> ref list \<Rightarrow> error + (store \<times> ref list)" where
  "cluster_loop this z [] acc = Inr acc"
| "cluster_loop this z (i # is) acc =
     (case visit this z i acc of Inl e \<Rightarrow> Inl e | Inr acc' \<Rightarrow> cluster_loop this z is acc')"

definition cluster :: "supercluster \<Rightarrow> store \<Rightarrow> ref list \<Rightarrow> int \<Rightarrow> error + (store \<times> ref list)" where
  "cluster this h points z = cluster_loop this z points (h, [])"

section \<open>load\<close>

fun map_points :: "feature list \<Rightarrow> store \<Rightarrow> error + (store \<times> ref list)" where
  "map_points [] h = Inr (h, [])"
| "map_points (p # ps) h =
     (case createPointCluster p of
        Inl e \<Rightarrow> Inl e
      | Inr n \<Rightarrow>
          (case alloc h n of (h1, c) \<Rightarrow>
             (case map_points ps h1 of
                Inl e \<Rightarrow> Inl e
              | Inr (h2, cs) \<Rightarrow> Inr (h2, c # cs))))"

text \<open>\<open>this.trees[k].load(clusters)\<close>.\<close>

definition tree_load :: "supercluster \<Rightarrow> int \<Rightarrow> ref list \<Rightarrow> error + supercluster" where
  "tree_load this k clusters =
     (case tree_at (trees this) k of
        None \<Rightarrow> Inl TypeError
      | Some t \<Rightarrow> Inr (this\<lparr>trees := (trees this)[nat k := rbush_load t clusters]\<rparr>))"

function load_loop :: "int \<Rightarrow> supercluster \<Rightarrow> store \<Rightarrow> ref list \<Rightarrow> error + (supercluster \<times> store \<times> ref list)" where
  "load_loop z this h clusters =
     (if minZoom (opts this) \<le> z then
        (case tree_load this (z + 1) clusters of
           Inl e \<Rightarrow> Inl e
         | Inr this1 \<Rightarrow>
             (case cluster this1 h clusters z of
                Inl e \<Rightarrow> Inl e
              | Inr (h1, clusters1) \<Rightarrow> load_loop (z - 1) this1 h1 clusters1))
      else Inr (this, h, clusters))"
  by pat_completeness auto
termination
  by (relation "measure (\<lambda>(z, this, h, clusters). nat (z + 1 - minZoom (opts this)))")
     (auto simp: tree_load_def split: option.splits)

definition load :: "supercluster \<Rightarrow> store \<Rightarrow> feature list \<Rightarrow> error + (supercluster \<times> store)" where
  "load this h points =
     (case map_points points h of
        Inl e \<Rightarrow> Inl e
      | Inr (h0, clusters) \<Rightarrow>
          (case load_loop (maxZoom (opts this)) this h0 clusters of
             Inl e \<Rightarrow> Inl e
           | Inr (this1, h1, clusters1) \<Rightarrow>
               (case tree_load this1 (minZoom (opts this1)) clusters1 of
                  Inl e \<Rightarrow> Inl e
                | Inr this2 \<Rightarrow> Inr (this2, h1))))"

section \<open>getClusters\<close>

datatype out_feature = Original feature | ClusterFeature nat real real

definition getCluster :: "node \<Rightarrow> out_feature" where
  "getCluster c =
     (case point c of
        Some p \<Rightarrow> Original p
      | None \<Rightarrow> ClusterFeature (numPoints c) (xLng (wx c)) (yLat (wy c)))"

definition getClusters :: "supercluster \<Rightarrow> store \<Rightarrow> real \<times> real \<times> real \<times> real \<Rightarrow> real \<Rightarrow> error + out_feature list" where
  "getClusters this h bbox zm =
     (case bbox of (b0, b1, b2, b3) \<Rightarrow>
        let projBBox = (lngX b0, latY b3, lngX b2, latY b1);
            z = max (of_int (minZoom (opts this))) (min zm (of_int (maxZoom (opts this) + 1)))
        in (case trees_index (trees this) z of
              None \<Rightarrow> Inl TypeError
            | Some t \<Rightarrow> Inr (map (\<lambda>c. getCluster (nodes h ! c)) (rbush_search h t projBBox))))"

text \<open>The zoom that \<open>getClusters\<close> computes at line 57 before it indexes \<open>this.trees\<close>.\<close>

definition clamp_zoom :: "options \<Rightarrow> real \<Rightarrow> real" where
  "clamp_zoom os zm = max (of_int (minZoom os)) (min zm (of_int (maxZoom os + 1)))"

section \<open>Notions for the statements\<close>

text \<open>
  \<open>claim\<close> marks a list of nodes as claimed at \<open>z\<close>, as the inner loop does; \<open>mass\<close> is the
  sum of \<open>numPoints\<close> over a list of references; two nodes have the \<open>same_fields\<close> when
  they differ at most in \<open>zoom\<close>, the only field that is assigned after creation, and a
  store \<open>extends\<close> another when it keeps its nodes up to \<open>zoom\<close>.
\<close>

definition claim :: "int \<Rightarrow> store \<Rightarrow> ref list \<Rightarrow> store" where
  "claim z h bs = foldl (\<lambda>h b. set_zoom h b z) h bs"

definition mass :: "store \<Rightarrow> ref list \<Rightarrow> nat" where
  "mass h rs = sum_list (map (\<lambda>c. numPoints (nodes h ! c)) rs)"

definition same_fields :: "node \<Rightarrow> node \<Rightarrow> bool" where
  "same_fields a b =
     (cx a = cx b \<and> cy a = cy b \<and> wx a = wx b \<and> wy a = wy b \<and> children a = children b \<and>
      point a = point b \<and> numPoints a = numPoints b)"

definition extends :: "store \<Rightarrow> store \<Rightarrow> bool" where
  "extends h h' =
     (length (nodes h) \<le> length (nodes h') \<and>
      (\<forall>j < length (nodes h). same_fields (nodes h ! j) (nodes h' ! j)))"

text \<open>
  The node that lines 91 to 110 build for the claiming node \<open>i\<close> and the neighbors \<open>bs\<close>,
  and the neighbors that \<open>getNeighbors\<close> keeps out of a tree \<open>t\<close>.
\<close>

definition aggregate :: "store \<Rightarrow> ref \<Rightarrow> ref list \<Rightarrow> node" where
  "aggregate h i bs =
     (let p = nodes h ! i; n = numPoints p + mass h bs in
      \<lparr>cx = cx p, cy = cy p,
       wx = (wx p * real (numPoints p) +
              (\<Sum>b\<leftarrow>bs. cx (nodes h ! b) * real (numPoints (nodes h ! b)))) / real n,
       wy = (wy p * real (numPoints p) +
              (\<Sum>b\<leftarrow>bs. cy (nodes h ! b) * real (numPoints (nodes h ! b)))) / real n,
       zoom = Infinity, children = Some bs, point = None, numPoints = n\<rparr>)"

definition neighbors_of :: "supercluster \<Rightarrow> int \<Rightarrow> ref list \<Rightarrow> store \<Rightarrow> ref \<Rightarrow> ref list" where
  "neighbors_of this z t h i =
     filter (\<lambda>b. in_bbox (cx (nodes h ! i) - search_radius (opts this) z,
                          cy (nodes h ! i) - search_radius (opts this) z,
                          cx (nodes h ! i) + search_radius (opts this) z,
                          cy (nodes h ! i) + search_radius (opts this) z) (nodes h ! b) \<and>
                 lt_zoom z (zoom (nodes h ! b)) \<and>
                 distSq (nodes h ! i) (nodes h ! b)
                   \<le> search_radius (opts this) z * search_radius (opts this) z) t"

text \<open>
  References that point into the store; the mass of the nodes of a list that are not yet
  claimed at \<open>z\<close>; and what holds each time the outer loop of a pass at zoom \<open>z\<close> over the
  tree \<open>t\<close> is about to visit the rest of its input: \<open>M\<close> is the mass of the input.
\<close>

definition valid_refs :: "store \<Rightarrow> ref list \<Rightarrow> bool" where
  "valid_refs h rs = (\<forall>r\<in>set rs. r < length (nodes h))"

definition umass :: "int \<Rightarrow> store \<Rightarrow> ref list \<Rightarrow> nat" where
  "umass z h rs = mass h (filter (\<lambda>i. lt_zoom z (zoom (nodes h ! i))) rs)"

definition pass_inv :: "int \<Rightarrow> ref list \<Rightarrow> nat \<Rightarrow> ref list \<Rightarrow> store \<times> ref list \<Rightarrow> bool" where
  "pass_inv z t M rest acc =
     (case acc of (h, out) \<Rightarrow>
        distinct t \<and> distinct rest \<and> distinct out \<and>
        valid_refs h t \<and> valid_refs h rest \<and> valid_refs h out \<and>
        (\<forall>b\<in>set t. lt_zoom z (zoom (nodes h ! b)) \<longrightarrow> b \<in> set rest) \<and>
        (\<forall>c\<in>set out. c \<notin> set rest \<and> lt_zoom (z - 1) (zoom (nodes h ! c))) \<and>
        mass h out + umass z h rest = M)"

text \<open>The store after a merge.\<close>

definition merged :: "int \<Rightarrow> store \<Rightarrow> ref \<Rightarrow> ref list \<Rightarrow> store" where
  "merged z h i bs =
     (claim z (set_zoom h i z) bs)
       \<lparr>nodes := nodes (claim z (set_zoom h i z) bs) @ [aggregate (set_zoom h i z) i bs]\<rparr>"

text \<open>
  Options with which a new instance can be loaded: \<open>load\<close> reads \<open>trees[minZoom]\<close> to
  \<open>trees[maxZoom + 1]\<close>, which exist when \<open>0 \<le> minZoom \<le> maxZoom + 1\<close>. With an extent of
  zero the radius of the source is infinite or NaN, which the model does not follow.
  \<open>loop_inv\<close> is what holds each time the loop of \<open>load\<close> tests \<open>z\<close>, for \<open>n\<close> features.
\<close>

definition valid_options :: "options \<Rightarrow> bool" where
  "valid_options os = (0 \<le> minZoom os \<and> minZoom os \<le> maxZoom os + 1 \<and> extent os \<noteq> 0)"

definition loop_inv :: "options \<Rightarrow> nat \<Rightarrow> int \<Rightarrow> supercluster \<Rightarrow> store \<Rightarrow> ref list \<Rightarrow> bool" where
  "loop_inv os n z this h cl =
     (opts this = os \<and> int (length (trees this)) = maxZoom os + 2 \<and>
      0 \<le> minZoom os \<and> minZoom os - 1 \<le> z \<and> z \<le> maxZoom os \<and>
      distinct cl \<and> valid_refs h cl \<and> (\<forall>c\<in>set cl. lt_zoom z (zoom (nodes h ! c))) \<and>
      mass h cl = n \<and>
      (\<forall>k. 0 \<le> k \<and> k \<le> z + 1 \<longrightarrow> tree_at (trees this) k = Some []) \<and>
      (\<forall>k. z + 1 < k \<and> k \<le> maxZoom os + 1 \<longrightarrow>
           (\<exists>t. tree_at (trees this) k = Some t \<and> distinct t \<and> valid_refs h t \<and> mass h t = n)))"

text \<open>The store that \<open>points.map(createPointCluster)\<close> builds from features with coordinates.\<close>

definition leaf :: "feature \<Rightarrow> node" where
  "leaf p =
     (case coordinates p of
        Some (lng, lat) \<Rightarrow> (createCluster (lngX lng) (latY lat))\<lparr>point := Some p\<rparr>
      | None \<Rightarrow> createCluster 0 0)"

definition leaves :: "feature list \<Rightarrow> store" where
  "leaves ps = \<lparr>nodes = map leaf ps, zlog = []\<rparr>"

text \<open>Coordinates in [0,1] and at least one point, for a node and for every node of a store.\<close>

definition unit_node :: "node \<Rightarrow> bool" where
  "unit_node n =
     (0 \<le> cx n \<and> cx n \<le> 1 \<and> 0 \<le> cy n \<and> cy n \<le> 1 \<and> 0 \<le> wx n \<and> wx n \<le> 1 \<and>
      0 \<le> wy n \<and> wy n \<le> 1 \<and> 1 \<le> numPoints n)"

definition unit_store :: "store \<Rightarrow> bool" where
  "unit_store h = (\<forall>j < length (nodes h). unit_node (nodes h ! j))"

text \<open>
  The values written to the \<open>zoom\<close> field of node \<open>i\<close> according to a log, oldest first, and
  what ties the log to the store: the values written to a node decrease strictly, the field
  holds the last of them, or \<open>Infinity\<close> when there is none, and only existing nodes are
  written.
\<close>

definition writes_to :: "ref \<Rightarrow> (ref \<times> int) list \<Rightarrow> int list" where
  "writes_to i l = map snd (filter (\<lambda>w. fst w = i) l)"

definition last_zoom :: "int list \<Rightarrow> zoomval" where
  "last_zoom ws = (if ws = [] then Infinity else Fin (last ws))"

definition log_ok :: "store \<Rightarrow> bool" where
  "log_ok h =
     (\<forall>i. sorted_wrt (\<lambda>a b. b < a) (writes_to i (zlog h)) \<and>
          (if i < length (nodes h) then zoom (nodes h ! i) = last_zoom (writes_to i (zlog h))
           else writes_to i (zlog h) = []))"

text \<open>
  \<open>absorbed this z t h a p cs\<close>: in the store \<open>h\<close>, the node \<open>a\<close> is the aggregate that
  the claiming node \<open>p\<close> formed at zoom \<open>z\<close> with the candidates \<open>cs\<close> out of the tree \<open>t\<close>.
\<close>

definition absorbed :: "supercluster \<Rightarrow> int \<Rightarrow> ref list \<Rightarrow> store \<Rightarrow> ref \<Rightarrow> ref \<Rightarrow> ref list \<Rightarrow> bool" where
  "absorbed this z t h a p cs =
     (same_fields (nodes h ! a) (aggregate h p cs) \<and> cs \<noteq> [] \<and> p \<notin> set cs \<and> set cs \<subseteq> set t \<and>
      list_all (\<lambda>b. distSq (nodes h ! p) (nodes h ! b)
                      \<le> search_radius (opts this) z * search_radius (opts this) z) cs)"

section \<open>Concrete inputs\<close>

text \<open>A feature on the equator at longitude \<open>lng\<close>, and options with \<open>minZoom = 0\<close>.\<close>

definition pt :: "real \<Rightarrow> feature" where
  "pt lng = \<lparr>coordinates = Some (lng, 0), payload = 0\<rparr>"

definition small_options :: "int \<Rightarrow> options" where
  "small_options mz =
     \<lparr>minZoom = 0, maxZoom = mz, radius = 40, extent = 512, nodeSize = 16, logging = False\<rparr>"

text \<open>The nodes and the trees that a call of \<open>load\<close> leaves behind.\<close>

definition result_nodes :: "error + (supercluster \<times> store) \<Rightarrow> node list" where
  "result_nodes r = (case r of Inl e \<Rightarrow> [] | Inr (this, h) \<Rightarrow> nodes h)"

definition result_trees :: "error + (supercluster \<times> store) \<Rightarrow> ref list list" where
  "result_trees r = (case r of Inl e \<Rightarrow> [] | Inr (this, h) \<Rightarrow> trees this)"

text \<open>Three nodes in a row, all in the tree of tier 1, ready for the pass at zoom 0.\<close>

definition ex_this :: supercluster where
  "ex_this = \<lparr>opts = small_options 0, trees = [[], [0, 1, 2]]\<rparr>"

definition ex_store :: store where
  "ex_store =
     \<lparr>nodes = [createCluster (1 / 2) (1 / 2), createCluster (57 / 100) (1 / 2),
               createCluster (43 / 100) (1 / 2)],
      zlog = []\<rparr>"

text \<open>
  Two calls of \<open>load\<close> in a row on one instance: the second call starts from the trees
  and the store that the first one left.
\<close>

definition load_twice :: "options \<Rightarrow> feature list \<Rightarrow> feature list \<Rightarrow> error + (supercluster \<times> store)" where
  "load_twice os ps qs =
     (case load (SuperCluster os) empty_store ps of
        Inl e \<Rightarrow> Inl e
      | Inr (this, h) \<Rightarrow> load this h qs)"

text \<open>The sum of \<open>numPoints\<close> in the tree of every tier, from tier 0 upwards.\<close>

definition tier_masses :: "error + (supercluster \<times> store) \<Rightarrow> nat list" where
  "tier_masses r = (case r of Inl e \<Rightarrow> [] | Inr (this, h) \<Rightarrow> map (mass h) (trees this))"

text \<open>
  The instance and the store after \<open>load\<close> of the features at longitudes -18, 0 and 9 with
  \<open>maxZoom = 1\<close>: tier 2 holds the three leaves, tier 1 the leaf at -18 and an aggregate of two,
  tier 0 one aggregate of three.
\<close>

definition loaded_this :: supercluster where
  "loaded_this = \<lparr>opts = small_options 1, trees = [[4], [0, 3], [0, 1, 2]]\<rparr>"

definition loaded_store :: store where
  "loaded_store =
     \<lparr>nodes =
        [(createCluster (9 / 20) (1 / 2))\<lparr>zoom := Fin 0, point := Some (pt (- 18))\<rparr>,
         (createCluster (1 / 2) (1 / 2))\<lparr>zoom := Fin 1, point := Some (pt 0)\<rparr>,
         (createCluster (21 / 40) (1 / 2))\<lparr>zoom := Fin 1, point := Some (pt 9)\<rparr>,
         (createCluster (1 / 2) (1 / 2))
           \<lparr>wx := 41 / 80, zoom := Fin 0, children := Some [2], numPoints := 2\<rparr>,
         (createCluster (9 / 20) (1 / 2))\<lparr>wx := 29 / 60, children := Some [3], numPoints := 3\<rparr>],
      zlog = [(0, 1), (1, 1), (2, 1), (0, 0), (3, 0)]\<rparr>"

section \<open>The store\<close>

lemma same_fields_refl [simp]: "same_fields a a"
  by (simp add: same_fields_def)

lemma same_fields_trans: "same_fields a b \<Longrightarrow> same_fields b c \<Longrightarrow> same_fields a c"
  by (simp add: same_fields_def)

lemma extends_refl [simp]: "extends h h"
  by (simp add: extends_def)

lemma extends_trans: "extends h1 h2 \<Longrightarrow> extends h2 h3 \<Longrightarrow> extends h1 h3"
  unfolding extends_def by (meson same_fields_trans order_trans less_le_trans)

lemma length_set_zoom [simp]: "length (nodes (set_zoom h i z)) = length (nodes h)"
  by (simp add: set_zoom_def)

lemma zlog_set_zoom [simp]: "zlog (set_zoom h i z) = zlog h @ [(i, z)]"
  by (simp add: set_zoom_def)

lemma nth_set_zoom:
  "nodes (set_zoom h i z) ! j =
     (if j = i \<and> i < length (nodes h) then (nodes h ! i)\<lparr>zoom := Fin z\<rparr> else nodes h ! j)"
  by (cases "i < length (nodes h)") (auto simp: set_zoom_def nth_list_update not_less list_update_beyond)

lemma zoom_set_zoom:
  "zoom (nodes (set_zoom h i z) ! j) =
     (if j = i \<and> i < length (nodes h) then Fin z else zoom (nodes h ! j))"
  by (simp add: nth_set_zoom)

lemma same_fields_set_zoom [simp]: "same_fields (nodes h ! j) (nodes (set_zoom h i z) ! j)"
  by (simp add: nth_set_zoom same_fields_def)

lemma extends_set_zoom [simp]: "extends h (set_zoom h i z)"
  by (simp add: extends_def)

lemma claim_Nil [simp]: "claim z h [] = h"
  by (simp add: claim_def)

lemma claim_Cons [simp]: "claim z h (b # bs) = claim z (set_zoom h b z) bs"
  by (simp add: claim_def)

lemma length_claim [simp]: "length (nodes (claim z h bs)) = length (nodes h)"
  by (induction bs arbitrary: h) simp_all

lemma zlog_claim [simp]: "zlog (claim z h bs) = zlog h @ map (\<lambda>b. (b, z)) bs"
  by (induction bs arbitrary: h) simp_all

lemma zoom_claim:
  "zoom (nodes (claim z h bs) ! j) =
     (if j \<in> set bs \<and> j < length (nodes h) then Fin z else zoom (nodes h ! j))"
  by (induction bs arbitrary: h) (auto simp: zoom_set_zoom)

lemma same_fields_claim [simp]: "same_fields (nodes h ! j) (nodes (claim z h bs) ! j)"
proof (induction bs arbitrary: h)
  case Nil
  show ?case by simp
next
  case (Cons b bs)
  show ?case
    using same_fields_trans[OF same_fields_set_zoom Cons[of "set_zoom h b z"]] by simp
qed

lemma extends_claim [simp]: "extends h (claim z h bs)"
  by (simp add: extends_def)

lemma absorb_eq:
  "absorb z bs (h, sx, sy, n) =
     (claim z h bs,
      sx + (\<Sum>b\<leftarrow>bs. cx (nodes h ! b) * real (numPoints (nodes h ! b))),
      sy + (\<Sum>b\<leftarrow>bs. cy (nodes h ! b) * real (numPoints (nodes h ! b))),
      n + mass h bs)"
proof (induction bs arbitrary: h sx sy n)
  case Nil
  show ?case by (simp add: mass_def)
next
  case (Cons b bs)
  have sf: "\<And>j. same_fields (nodes h ! j) (nodes (set_zoom h b z) ! j)" by simp
  have "\<And>j. cx (nodes (set_zoom h b z) ! j) = cx (nodes h ! j)"
       "\<And>j. cy (nodes (set_zoom h b z) ! j) = cy (nodes h ! j)"
       "\<And>j. numPoints (nodes (set_zoom h b z) ! j) = numPoints (nodes h ! j)"
    using sf by (simp_all add: same_fields_def)
  then show ?case using Cons by (simp add: Let_def mass_def algebra_simps)
qed

section \<open>The body of the loop, case by case\<close>

lemma zoom_le_iff: "zoom_le v z = (\<not> lt_zoom z v)"
  by (cases v) auto

lemma visit_skip:
  "\<not> lt_zoom z (zoom (nodes h ! i)) \<Longrightarrow> visit this z i (h, out) = Inr (h, out)"
  by (simp add: zoom_le_iff)

lemma visit_error:
  "lt_zoom z (zoom (nodes h ! i)) \<Longrightarrow> getNeighbors this (set_zoom h i z) i z = Inl e \<Longrightarrow>
   visit this z i (h, out) = Inl e"
  by (simp add: zoom_le_iff)

lemma visit_single:
  "lt_zoom z (zoom (nodes h ! i)) \<Longrightarrow> getNeighbors this (set_zoom h i z) i z = Inr [] \<Longrightarrow>
   visit this z i (h, out) = Inr (set_zoom h i z, out @ [i])"
  by (simp add: zoom_le_iff)

lemma visit_merge:
  assumes "lt_zoom z (zoom (nodes h ! i))"
    and "getNeighbors this (set_zoom h i z) i z = Inr bs" and "bs \<noteq> []"
  shows "visit this z i (h, out) =
           Inr ((claim z (set_zoom h i z) bs)
                  \<lparr>nodes := nodes (claim z (set_zoom h i z) bs) @ [aggregate (set_zoom h i z) i bs]\<rparr>,
                out @ [length (nodes h)])"
proof -
  let ?h1 = "set_zoom h i z"
  have sf: "same_fields (nodes h ! i) (nodes ?h1 ! i)" by simp
  have a: "absorb z bs (?h1, wx (nodes ?h1 ! i) * real (numPoints (nodes ?h1 ! i)),
             wy (nodes ?h1 ! i) * real (numPoints (nodes ?h1 ! i)), numPoints (nodes ?h1 ! i)) =
           (claim z ?h1 bs,
            wx (nodes ?h1 ! i) * real (numPoints (nodes ?h1 ! i)) +
              (\<Sum>b\<leftarrow>bs. cx (nodes ?h1 ! b) * real (numPoints (nodes ?h1 ! b))),
            wy (nodes ?h1 ! i) * real (numPoints (nodes ?h1 ! i)) +
              (\<Sum>b\<leftarrow>bs. cy (nodes ?h1 ! b) * real (numPoints (nodes ?h1 ! b))),
            numPoints (nodes ?h1 ! i) + mass ?h1 bs)"
    by (rule absorb_eq)
  show ?thesis
    using assms
    by (simp add: a zoom_le_iff alloc_def aggregate_def createCluster_def Let_def)
qed

declare visit.simps [simp del]

lemma visit_cases:
  assumes "visit this z i (h, out) = Inr (h', out')"
  shows "(\<not> lt_zoom z (zoom (nodes h ! i)) \<and> h' = h \<and> out' = out) \<or>
         (lt_zoom z (zoom (nodes h ! i)) \<and> getNeighbors this (set_zoom h i z) i z = Inr [] \<and>
          h' = set_zoom h i z \<and> out' = out @ [i]) \<or>
         (\<exists>bs. lt_zoom z (zoom (nodes h ! i)) \<and>
            getNeighbors this (set_zoom h i z) i z = Inr bs \<and> bs \<noteq> [] \<and>
            h' = (claim z (set_zoom h i z) bs)
                   \<lparr>nodes := nodes (claim z (set_zoom h i z) bs) @
                              [aggregate (set_zoom h i z) i bs]\<rparr> \<and>
            out' = out @ [length (nodes h)])"
proof (cases "lt_zoom z (zoom (nodes h ! i))")
  case False
  then show ?thesis using assms by (simp add: visit_skip)
next
  case True
  note lt = this
  show ?thesis
  proof (cases "getNeighbors this (set_zoom h i z) i z")
    case (Inl e)
    then show ?thesis using assms lt by (simp add: visit_error)
  next
    case (Inr bs)
    show ?thesis
    proof (cases "bs = []")
      case True
      have "visit this z i (h, out) = Inr (set_zoom h i z, out @ [i])"
        using visit_single lt Inr True by simp
      then show ?thesis using assms lt Inr True by simp
    next
      case False
      have "visit this z i (h, out) =
              Inr ((claim z (set_zoom h i z) bs)
                     \<lparr>nodes := nodes (claim z (set_zoom h i z) bs) @
                                [aggregate (set_zoom h i z) i bs]\<rparr>,
                   out @ [length (nodes h)])"
        by (rule visit_merge[OF lt Inr False])
      then show ?thesis using assms lt Inr False by auto
    qed
  qed
qed

lemma cluster_loop_rule:
  assumes "cluster_loop this z rest acc = Inr acc'"
    and "I rest acc"
    and "\<And>i rest acc acc'. I (i # rest) acc \<Longrightarrow> visit this z i acc = Inr acc' \<Longrightarrow> I rest acc'"
  shows "I [] acc'"
  using assms(1,2)
proof (induction rest arbitrary: acc)
  case Nil
  then show ?case by simp
next
  case (Cons i rest)
  then obtain acc1 where v: "visit this z i acc = Inr acc1"
    and l: "cluster_loop this z rest acc1 = Inr acc'"
    by (auto split: sum.splits)
  show ?case using Cons.IH[OF l assms(3)[OF Cons.prems(2) v]] .
qed

lemma getNeighbors_eq:
  "getNeighbors this h i z =
     (case tree_at (trees this) (z + 1) of
        None \<Rightarrow> Inl TypeError
      | Some t \<Rightarrow> Inr (neighbors_of this z t h i))"
  by (simp add: getNeighbors_def neighbors_of_def rbush_search_def Let_def split: option.splits)

section \<open>A pass keeps the mass\<close>

lemma sum_list_filter_split:
  fixes f :: "ref \<Rightarrow> nat"
  assumes "distinct rs" and "distinct bs" and "set bs \<subseteq> {r \<in> set rs. P r}"
  shows "sum_list (map f (filter (\<lambda>r. P r \<and> r \<notin> set bs) rs)) + sum_list (map f bs) =
         sum_list (map f (filter P rs))"
proof -
  let ?A = "{r \<in> set rs. P r \<and> r \<notin> set bs}"
  have 1: "sum_list (map f (filter (\<lambda>r. P r \<and> r \<notin> set bs) rs)) = sum f ?A"
    using assms(1) by (simp add: sum_list_distinct_conv_sum_set)
  have 2: "sum_list (map f bs) = sum f (set bs)"
    using assms(2) by (simp add: sum_list_distinct_conv_sum_set)
  have 3: "sum_list (map f (filter P rs)) = sum f {r \<in> set rs. P r}"
    using assms(1) by (simp add: sum_list_distinct_conv_sum_set)
  have 4: "{r \<in> set rs. P r} = ?A \<union> set bs" using assms(3) by auto
  have 5: "?A \<inter> set bs = {}" by auto
  have "sum f (?A \<union> set bs) = sum f ?A + sum f (set bs)"
    by (rule sum.union_disjoint) (use 5 in auto)
  then show ?thesis using 1 2 3 4 by simp
qed

lemma mass_cong:
  "(\<And>r. r \<in> set rs \<Longrightarrow> numPoints (nodes h' ! r) = numPoints (nodes h ! r)) \<Longrightarrow>
   mass h' rs = mass h rs"
  unfolding mass_def by (induction rs) simp_all

lemma mass_append [simp]: "mass h (xs @ ys) = mass h xs + mass h ys"
  by (simp add: mass_def)

lemma mass_single [simp]: "mass h [r] = numPoints (nodes h ! r)"
  by (simp add: mass_def)

lemma extends_numPoints:
  "extends h h' \<Longrightarrow> j < length (nodes h) \<Longrightarrow> numPoints (nodes h' ! j) = numPoints (nodes h ! j)"
  by (simp add: extends_def same_fields_def)

lemma extends_mass: "extends h h' \<Longrightarrow> valid_refs h rs \<Longrightarrow> mass h' rs = mass h rs"
  by (rule mass_cong) (simp add: extends_numPoints valid_refs_def)

lemma extends_valid: "extends h h' \<Longrightarrow> valid_refs h rs \<Longrightarrow> valid_refs h' rs"
  by (auto simp: extends_def valid_refs_def)

lemma neighbors_of_subset: "set (neighbors_of this z t h i) \<subseteq> set t"
  by (auto simp: neighbors_of_def)

lemma neighbors_of_distinct: "distinct t \<Longrightarrow> distinct (neighbors_of this z t h i)"
  by (simp add: neighbors_of_def)

lemma neighbors_of_unclaimed:
  "b \<in> set (neighbors_of this z t h i) \<Longrightarrow> lt_zoom z (zoom (nodes h ! b))"
  by (simp add: neighbors_of_def)

lemma neighbors_of_near:
  "b \<in> set (neighbors_of this z t h i) \<Longrightarrow>
   distSq (nodes h ! i) (nodes h ! b) \<le> search_radius (opts this) z * search_radius (opts this) z"
  by (simp add: neighbors_of_def)

lemma lt_zoom_self [simp]: "\<not> lt_zoom z (Fin z)" "lt_zoom (z - 1) (Fin z)"
  by simp_all

lemma lt_zoom_pred: "lt_zoom z v \<Longrightarrow> lt_zoom (z - 1) v"
  by (cases v) auto

lemma length_merged [simp]: "length (nodes (merged z h i bs)) = Suc (length (nodes h))"
  by (simp add: merged_def)

lemma zlog_merged [simp]: "zlog (merged z h i bs) = zlog h @ (i, z) # map (\<lambda>b. (b, z)) bs"
  by (simp add: merged_def)

lemma nth_merged_old:
  "j < length (nodes h) \<Longrightarrow> nodes (merged z h i bs) ! j = nodes (claim z (set_zoom h i z) bs) ! j"
  by (simp add: merged_def nth_append)

lemma nth_merged_new [simp]:
  "nodes (merged z h i bs) ! length (nodes h) = aggregate (set_zoom h i z) i bs"
  by (simp add: merged_def nth_append)

lemma zoom_merged_old:
  "j < length (nodes h) \<Longrightarrow>
   zoom (nodes (merged z h i bs) ! j) = (if j = i \<or> j \<in> set bs then Fin z else zoom (nodes h ! j))"
  by (simp add: nth_merged_old zoom_claim zoom_set_zoom)

lemma extends_merged [simp]: "extends h (merged z h i bs)"
proof -
  have "extends h (claim z (set_zoom h i z) bs)"
    using extends_trans[OF extends_set_zoom extends_claim] .
  then show ?thesis by (simp add: extends_def nth_merged_old)
qed

lemma numPoints_aggregate:
  "i < length (nodes h) \<Longrightarrow>
   numPoints (aggregate (set_zoom h i z) i bs) = numPoints (nodes h ! i) + mass h bs"
proof -
  have "mass (set_zoom h i z) bs = mass h bs"
    by (rule mass_cong) (simp add: nth_set_zoom)
  then show ?thesis by (simp add: aggregate_def Let_def nth_set_zoom)
qed

lemma visit_result:
  assumes "visit this z i (h, out) = Inr (h', out')" and "tree_at (trees this) (z + 1) = Some t"
  shows "(\<not> lt_zoom z (zoom (nodes h ! i)) \<and> h' = h \<and> out' = out) \<or>
         (lt_zoom z (zoom (nodes h ! i)) \<and> neighbors_of this z t (set_zoom h i z) i = [] \<and>
          h' = set_zoom h i z \<and> out' = out @ [i]) \<or>
         (lt_zoom z (zoom (nodes h ! i)) \<and> neighbors_of this z t (set_zoom h i z) i \<noteq> [] \<and>
          h' = merged z h i (neighbors_of this z t (set_zoom h i z) i) \<and>
          out' = out @ [length (nodes h)])"
  using visit_cases[OF assms(1)] assms(2) by (auto simp: getNeighbors_eq merged_def)

lemma umass_Cons:
  "umass z h (i # rest) =
     (if lt_zoom z (zoom (nodes h ! i)) then numPoints (nodes h ! i) else 0) + umass z h rest"
  by (simp add: umass_def mass_def)

lemma umass_set_zoom:
  assumes "i \<notin> set rest"
  shows "umass z (set_zoom h i v) rest = umass z h rest"
proof -
  have f: "filter (\<lambda>j. lt_zoom z (zoom (nodes (set_zoom h i v) ! j))) rest =
           filter (\<lambda>j. lt_zoom z (zoom (nodes h ! j))) rest"
    using assms by (intro filter_cong) (auto simp: zoom_set_zoom)
  show ?thesis unfolding umass_def f by (rule mass_cong) (simp add: nth_set_zoom)
qed

lemma umass_merged:
  assumes "distinct rest" and "distinct bs" and "valid_refs h rest" and "i \<notin> set rest"
    and "set bs \<subseteq> {r \<in> set rest. lt_zoom z (zoom (nodes h ! r))}"
  shows "umass z (merged z h i bs) rest + mass h bs = umass z h rest"
proof -
  have v: "\<And>j. j \<in> set rest \<Longrightarrow> j < length (nodes h)"
    using assms(3) by (simp add: valid_refs_def)
  have f: "filter (\<lambda>j. lt_zoom z (zoom (nodes (merged z h i bs) ! j))) rest =
           filter (\<lambda>j. lt_zoom z (zoom (nodes h ! j)) \<and> j \<notin> set bs) rest"
    using assms(4) v by (intro filter_cong) (auto simp: zoom_merged_old)
  have m: "\<And>rs. valid_refs h rs \<Longrightarrow> mass (merged z h i bs) rs = mass h rs"
    by (rule extends_mass) simp_all
  have vf: "valid_refs h (filter (\<lambda>j. lt_zoom z (zoom (nodes h ! j)) \<and> j \<notin> set bs) rest)"
    using assms(3) by (simp add: valid_refs_def)
  have "umass z (merged z h i bs) rest =
        mass h (filter (\<lambda>j. lt_zoom z (zoom (nodes h ! j)) \<and> j \<notin> set bs) rest)"
    unfolding umass_def f by (rule m[OF vf])
  then show ?thesis
    unfolding umass_def mass_def
    using sum_list_filter_split[OF assms(1,2,5), of "\<lambda>c. numPoints (nodes h ! c)"] by simp
qed

lemma pass_inv_step:
  assumes inv: "pass_inv z t M (i # rest) (h, out)"
    and tree: "tree_at (trees this) (z + 1) = Some t"
    and vis: "visit this z i (h, out) = Inr (h', out')"
  shows "pass_inv z t M rest (h', out')"
proof -
  from inv have dt: "distinct t" and dr: "distinct rest" and ir: "i \<notin> set rest"
    and dout: "distinct out"
    and vt: "valid_refs h t" and vi: "i < length (nodes h)" and vr: "valid_refs h rest"
    and vo: "valid_refs h out"
    and unc: "\<And>b. b \<in> set t \<Longrightarrow> lt_zoom z (zoom (nodes h ! b)) \<Longrightarrow> b = i \<or> b \<in> set rest"
    and outp: "\<And>c. c \<in> set out \<Longrightarrow> c \<noteq> i \<and> c \<notin> set rest \<and> lt_zoom (z - 1) (zoom (nodes h ! c))"
    and m: "mass h out + umass z h (i # rest) = M"
    by (auto simp: pass_inv_def valid_refs_def)
  let ?bs = "neighbors_of this z t (set_zoom h i z) i"
  consider (skip) "\<not> lt_zoom z (zoom (nodes h ! i))" "h' = h" "out' = out"
    | (single) "lt_zoom z (zoom (nodes h ! i))" "?bs = []" "h' = set_zoom h i z" "out' = out @ [i]"
    | (merge) "lt_zoom z (zoom (nodes h ! i))" "?bs \<noteq> []" "h' = merged z h i ?bs"
        "out' = out @ [length (nodes h)]"
    using visit_result[OF vis tree] by blast
  then show ?thesis
  proof cases
    case skip
    have "\<And>b. b \<in> set t \<Longrightarrow> lt_zoom z (zoom (nodes h ! b)) \<Longrightarrow> b \<in> set rest"
      using unc skip(1) by blast
    moreover have "mass h out + umass z h rest = M"
      using m skip(1) by (simp add: umass_Cons)
    ultimately show ?thesis
      using skip dt dr dout vt vr vo outp by (auto simp: pass_inv_def)
  next
    case single
    let ?h1 = "set_zoom h i z"
    have a: "\<And>b. b \<in> set t \<Longrightarrow> lt_zoom z (zoom (nodes ?h1 ! b)) \<Longrightarrow> b \<in> set rest"
      using unc vi by (auto simp: zoom_set_zoom split: if_splits)
    have b: "\<And>c. c \<in> set (out @ [i]) \<Longrightarrow> c \<notin> set rest \<and> lt_zoom (z - 1) (zoom (nodes ?h1 ! c))"
      using outp ir vi by (auto simp: zoom_set_zoom)
    have c: "distinct (out @ [i])" using dout outp by auto
    have "mass ?h1 (out @ [i]) = mass h out + numPoints (nodes h ! i)"
      using extends_mass[OF extends_set_zoom vo, of i z] by (simp add: nth_set_zoom)
    then have d: "mass ?h1 (out @ [i]) + umass z ?h1 rest = M"
      using m single(1) by (simp add: umass_Cons umass_set_zoom[OF ir])
    have e: "valid_refs ?h1 t" "valid_refs ?h1 rest" "valid_refs ?h1 (out @ [i])"
      using vt vr vo vi by (simp_all add: valid_refs_def)
    show ?thesis
      unfolding single(3,4) pass_inv_def using dt dr a b c d e by auto
  next
    case merge
    let ?h1 = "set_zoom h i z"
    let ?c = "length (nodes h)"
    have bs_t: "set ?bs \<subseteq> set t" by (rule neighbors_of_subset)
    have bs_d: "distinct ?bs" using dt by (rule neighbors_of_distinct)
    have bs_u: "\<And>b. b \<in> set ?bs \<Longrightarrow> b \<noteq> i \<and> lt_zoom z (zoom (nodes h ! b))"
    proof -
      fix b assume "b \<in> set ?bs"
      then have "lt_zoom z (zoom (nodes ?h1 ! b))" by (rule neighbors_of_unclaimed)
      then show "b \<noteq> i \<and> lt_zoom z (zoom (nodes h ! b))"
        using vi by (auto simp: zoom_set_zoom split: if_splits)
    qed
    have bs_r: "set ?bs \<subseteq> {r \<in> set rest. lt_zoom z (zoom (nodes h ! r))}"
      using bs_t bs_u unc by blast
    have ext: "extends h h'" unfolding merge(3) by simp
    have a: "\<And>b. b \<in> set t \<Longrightarrow> lt_zoom z (zoom (nodes h' ! b)) \<Longrightarrow> b \<in> set rest"
    proof -
      fix b assume "b \<in> set t" and l: "lt_zoom z (zoom (nodes h' ! b))"
      then have "b < length (nodes h)" using vt by (simp add: valid_refs_def)
      then have "b \<noteq> i \<and> lt_zoom z (zoom (nodes h ! b))"
        using l unfolding merge(3) by (auto simp: zoom_merged_old split: if_splits)
      then show "b \<in> set rest" using unc[OF \<open>b \<in> set t\<close>] by blast
    qed
    have b1: "\<And>c. c \<in> set out \<Longrightarrow> c \<notin> set rest \<and> lt_zoom (z - 1) (zoom (nodes h' ! c))"
    proof -
      fix c assume c: "c \<in> set out"
      then have "c < length (nodes h)" using vo by (simp add: valid_refs_def)
      then show "c \<notin> set rest \<and> lt_zoom (z - 1) (zoom (nodes h' ! c))"
        using outp[OF c] unfolding merge(3) by (simp add: zoom_merged_old)
    qed
    have b2: "?c \<notin> set rest \<and> lt_zoom (z - 1) (zoom (nodes h' ! ?c))"
      using vr unfolding merge(3) by (auto simp: valid_refs_def aggregate_def Let_def)
    have c: "distinct (out @ [?c])" using dout vo by (auto simp: valid_refs_def)
    have "mass h' out = mass h out" using extends_mass[OF ext vo] .
    moreover have "numPoints (nodes h' ! ?c) = numPoints (nodes h ! i) + mass h ?bs"
      unfolding merge(3) using vi by (simp add: numPoints_aggregate)
    moreover have "umass z h' rest + mass h ?bs = umass z h rest"
      unfolding merge(3) by (rule umass_merged[OF dr bs_d vr ir bs_r])
    ultimately have d: "mass h' (out @ [?c]) + umass z h' rest = M"
      using m merge(1) by (simp add: umass_Cons)
    have e: "valid_refs h' t" "valid_refs h' rest" "valid_refs h' (out @ [?c])"
      using vt vr vo unfolding merge(3) by (auto simp: valid_refs_def)
    show ?thesis
      unfolding merge(4) pass_inv_def using dt dr a b1 b2 c d e by auto
  qed
qed

lemma visit_total:
  assumes "tree_at (trees this) (z + 1) = Some t"
  shows "\<exists>r. visit this z i acc = Inr r"
proof (cases acc)
  case (Pair h out)
  have g: "getNeighbors this (set_zoom h i z) i z = Inr (neighbors_of this z t (set_zoom h i z) i)"
    using assms by (simp add: getNeighbors_eq)
  show ?thesis
  proof (cases "lt_zoom z (zoom (nodes h ! i))")
    case False
    then show ?thesis using Pair by (simp add: visit_skip)
  next
    case True
    show ?thesis
    proof (cases "neighbors_of this z t (set_zoom h i z) i = []")
      case True
      then show ?thesis using Pair \<open>lt_zoom z (zoom (nodes h ! i))\<close> g by (simp add: visit_single)
    next
      case False
      then show ?thesis using Pair True visit_merge[OF True g False] by simp
    qed
  qed
qed

lemma cluster_loop_total:
  assumes "tree_at (trees this) (z + 1) = Some t"
  shows "\<exists>r. cluster_loop this z rest acc = Inr r"
proof (induction rest arbitrary: acc)
  case Nil
  show ?case by simp
next
  case (Cons i rest)
  obtain r where "visit this z i acc = Inr r" using visit_total[OF assms] by blast
  then show ?case using Cons[of r] by simp
qed

lemma visit_extends:
  assumes "visit this z i (h, out) = Inr (h', out')"
  shows "extends h h'"
  using visit_cases[OF assms] extends_merged[of h z i] by (auto simp: merged_def)

lemma cluster_extends:
  assumes "cluster this h points z = Inr (h', out)"
  shows "extends h h'"
proof -
  have "(\<lambda>rest acc. extends h (fst acc)) [] (h', out)"
    using assms unfolding cluster_def
  proof (rule cluster_loop_rule)
    show "extends h (fst (h, []))" by simp
  next
    fix i rest acc acc'
    assume a: "extends h (fst acc)" and v: "visit this z i acc = Inr acc'"
    obtain h1 o1 h2 o2 where e: "acc = (h1, o1)" "acc' = (h2, o2)"
      by (cases acc, cases acc') auto
    show "extends h (fst acc')"
      using a visit_extends[of this z i h1 o1 h2 o2] v e extends_trans by auto
  qed
  then show ?thesis by simp
qed

lemma cluster_pass_inv:
  assumes "tree_at (trees this) (z + 1) = Some t"
    and "pass_inv z t M points (h, [])"
    and "cluster this h points z = Inr (h', out)"
  shows "pass_inv z t M [] (h', out)"
  using assms(3) unfolding cluster_def
proof (rule cluster_loop_rule)
  show "pass_inv z t M points (h, [])" by (rule assms(2))
next
  fix i rest acc acc'
  assume a: "pass_inv z t M (i # rest) acc" and v: "visit this z i acc = Inr acc'"
  obtain h1 o1 h2 o2 where e: "acc = (h1, o1)" "acc' = (h2, o2)"
    by (cases acc, cases acc') auto
  show "pass_inv z t M rest acc'"
    using pass_inv_step[OF _ assms(1), of M i rest h1 o1 h2 o2] a v e by simp
qed

lemma umass_all:
  "(\<And>c. c \<in> set cl \<Longrightarrow> lt_zoom z (zoom (nodes h ! c))) \<Longrightarrow> umass z h cl = mass h cl"
  by (simp add: umass_def)

text \<open>What one pass does to a set of clusters that was loaded into its tree.\<close>

lemma cluster_tier:
  assumes tree: "tree_at (trees this) (z + 1) = Some cl"
    and d: "distinct cl" and v: "valid_refs h cl"
    and u: "\<And>c. c \<in> set cl \<Longrightarrow> lt_zoom z (zoom (nodes h ! c))"
    and c: "cluster this h cl z = Inr (h', out)"
  shows "distinct out \<and> valid_refs h' out \<and> (\<forall>c\<in>set out. lt_zoom (z - 1) (zoom (nodes h' ! c))) \<and>
         mass h' out = mass h cl"
proof -
  have "pass_inv z cl (mass h cl) cl (h, [])"
    using d v u by (simp add: pass_inv_def valid_refs_def umass_all mass_def)
  from cluster_pass_inv[OF tree this c] show ?thesis
    by (simp add: pass_inv_def umass_def mass_def)
qed

section \<open>The cascade of passes\<close>

lemma tree_at_update:
  "0 \<le> k \<Longrightarrow>
   tree_at (ts[nat k := t]) j = (if j = k \<and> k < int (length ts) then Some t else tree_at ts j)"
  by (auto simp: tree_at_def nth_list_update nat_eq_iff)

lemma load_loop_rule:
  assumes "loop_inv os n z this h cl" and "Q h"
    and step: "\<And>z this h cl h' out.
                 Q h \<Longrightarrow> opts this = os \<Longrightarrow> tree_at (trees this) (z + 1) = Some cl \<Longrightarrow> distinct cl \<Longrightarrow>
                 valid_refs h cl \<Longrightarrow> cluster this h cl z = Inr (h', out) \<Longrightarrow> Q h'"
  shows "\<exists>this' h' cl'. load_loop z this h cl = Inr (this', h', cl') \<and>
           loop_inv os n (minZoom os - 1) this' h' cl' \<and> Q h'"
  using assms(1,2)
proof (induction z this h cl rule: load_loop.induct)
  case (1 z this h cl)
  note inv = "1.prems"(1) and q = "1.prems"(2)
  have os: "opts this = os" using inv by (simp add: loop_inv_def)
  show ?case
  proof (cases "minZoom (opts this) \<le> z")
    case False
    then have "z = minZoom os - 1" using inv os by (simp add: loop_inv_def)
    then show ?thesis using False inv q by simp
  next
    case True
    have z0: "0 \<le> z + 1" using True inv os by (simp add: loop_inv_def)
    have len: "z + 1 < int (length (trees this))" using inv by (simp add: loop_inv_def)
    have empty: "tree_at (trees this) (z + 1) = Some []"
      using inv z0 by (simp add: loop_inv_def)
    define this1 where "this1 = this\<lparr>trees := (trees this)[nat (z + 1) := cl]\<rparr>"
    have tl: "tree_load this (z + 1) cl = Inr this1"
      using empty by (simp add: tree_load_def rbush_load_def this1_def)
    have t1: "tree_at (trees this1) (z + 1) = Some cl"
      using z0 len by (simp add: this1_def tree_at_update)
    obtain h1 cl1 where c: "cluster this1 h cl z = Inr (h1, cl1)"
      using cluster_loop_total[OF t1, of cl "(h, [])"] unfolding cluster_def by auto
    have d: "distinct cl" and v: "valid_refs h cl"
      and u: "\<And>c. c \<in> set cl \<Longrightarrow> lt_zoom z (zoom (nodes h ! c))"
      and m: "mass h cl = n"
      using inv by (simp_all add: loop_inv_def)
    have tier: "distinct cl1 \<and> valid_refs h1 cl1 \<and>
                (\<forall>c\<in>set cl1. lt_zoom (z - 1) (zoom (nodes h1 ! c))) \<and> mass h1 cl1 = mass h cl"
      by (rule cluster_tier[OF t1 d v u c])
    have ext: "extends h h1" by (rule cluster_extends[OF c])
    have os1: "opts this1 = os" using os by (simp add: this1_def)
    have q1: "Q h1" by (rule step[OF q os1 t1 d v c])
    have low: "\<And>k. 0 \<le> k \<and> k \<le> z \<Longrightarrow> tree_at (trees this1) k = Some []"
      using inv z0 by (simp add: this1_def tree_at_update loop_inv_def)
    have high: "\<And>k. z < k \<and> k \<le> maxZoom os + 1 \<Longrightarrow>
                 \<exists>t. tree_at (trees this1) k = Some t \<and> distinct t \<and> valid_refs h1 t \<and> mass h1 t = n"
    proof -
      fix k assume k: "z < k \<and> k \<le> maxZoom os + 1"
      show "\<exists>t. tree_at (trees this1) k = Some t \<and> distinct t \<and> valid_refs h1 t \<and> mass h1 t = n"
      proof (cases "k = z + 1")
        case True
        then show ?thesis
          using t1 d extends_valid[OF ext v] extends_mass[OF ext v] m by simp
      next
        case False
        then have "z + 1 < k \<and> k \<le> maxZoom os + 1" using k by simp
        then obtain t where t: "tree_at (trees this) k = Some t" "distinct t" "valid_refs h t"
          "mass h t = n"
          using inv unfolding loop_inv_def by blast
        have "tree_at (trees this1) k = Some t"
          using t(1) False z0 by (simp add: this1_def tree_at_update)
        then show ?thesis
          using t extends_valid[OF ext t(3)] extends_mass[OF ext t(3)] by simp
      qed
    qed
    have inv1: "loop_inv os n (z - 1) this1 h1 cl1"
      unfolding loop_inv_def
      using os1 inv True os tier m low high by (simp add: loop_inv_def this1_def)
    have "\<exists>this' h' cl'. load_loop (z - 1) this1 h1 cl1 = Inr (this', h', cl') \<and>
            loop_inv os n (minZoom os - 1) this' h' cl' \<and> Q h'"
      by (rule "1.IH"[OF True tl _ _ inv1 q1]) (use c in simp_all)
    then show ?thesis using True tl c by (subst load_loop.simps) simp
  qed
qed

lemma map_points_ok:
  assumes "\<forall>p\<in>set ps. coordinates p \<noteq> None"
  shows "map_points ps h =
           Inr (h\<lparr>nodes := nodes h @ map leaf ps\<rparr>, [length (nodes h)..<length (nodes h) + length ps])"
  using assms
proof (induction ps arbitrary: h)
  case Nil
  show ?case by simp
next
  case (Cons p ps)
  then obtain lng lat where c: "coordinates p = Some (lng, lat)" by auto
  have "[length (nodes h)..<length (nodes h) + length (p # ps)] =
        length (nodes h) # [Suc (length (nodes h))..<Suc (length (nodes h)) + length ps]"
    by (simp add: upt_rec)
  then show ?case
    using Cons c by (simp add: createPointCluster_def alloc_def leaf_def)
qed

lemma map_points_error:
  assumes "\<exists>p\<in>set ps. coordinates p = None"
  shows "map_points ps h = Inl TypeError"
  using assms
proof (induction ps arbitrary: h)
  case Nil
  then show ?case by simp
next
  case (Cons p ps)
  show ?case
  proof (cases "coordinates p")
    case None
    then show ?thesis by (simp add: createPointCluster_def)
  next
    case (Some c)
    then have "\<exists>p\<in>set ps. coordinates p = None" using Cons.prems by auto
    then have "\<And>h. map_points ps h = Inl TypeError" using Cons.IH by blast
    then show ?thesis using Some by (simp add: createPointCluster_def alloc_def split: prod.splits)
  qed
qed

lemma leaf_fields [simp]: "zoom (leaf p) = Infinity" "numPoints (leaf p) = 1"
  by (simp_all add: leaf_def createCluster_def split: option.splits)

lemma loop_inv_init:
  assumes "valid_options os"
  shows "loop_inv os (length ps) (maxZoom os) (SuperCluster os) (leaves ps) [0..<length ps]"
proof -
  have e: "map (\<lambda>c. numPoints (map leaf ps ! c)) [0..<length ps] = map (\<lambda>c. 1) [0..<length ps]"
    by (rule map_cong) auto
  have "mass (leaves ps) [0..<length ps] = length ps"
    unfolding mass_def leaves_def store.select_convs e by (simp add: sum_list_triv)
  moreover have "\<And>k. 0 \<le> k \<and> k \<le> maxZoom os + 1 \<Longrightarrow> tree_at (initTrees os) k = Some []"
    by (auto simp: tree_at_def initTrees_def)
  ultimately show ?thesis
    using assms
    by (auto simp: loop_inv_def valid_options_def SuperCluster_def valid_refs_def leaves_def
          initTrees_def)
qed

lemma load_rule:
  assumes vo: "valid_options os" and co: "\<forall>p\<in>set ps. coordinates p \<noteq> None"
    and q0: "Q (leaves ps)"
    and step: "\<And>z this h cl h' out.
                 Q h \<Longrightarrow> opts this = os \<Longrightarrow> tree_at (trees this) (z + 1) = Some cl \<Longrightarrow> distinct cl \<Longrightarrow>
                 valid_refs h cl \<Longrightarrow> cluster this h cl z = Inr (h', out) \<Longrightarrow> Q h'"
  shows "\<exists>this' h'. load (SuperCluster os) empty_store ps = Inr (this', h') \<and> opts this' = os \<and>
           int (length (trees this')) = maxZoom os + 2 \<and> Q h' \<and>
           (\<forall>k. minZoom os \<le> k \<and> k \<le> maxZoom os + 1 \<longrightarrow>
              (\<exists>t. tree_at (trees this') k = Some t \<and> distinct t \<and> valid_refs h' t \<and>
                   mass h' t = length ps))"
proof -
  have mp: "map_points ps empty_store = Inr (leaves ps, [0..<length ps])"
    using map_points_ok[OF co, of empty_store] by (simp add: empty_store_def leaves_def)
  have "\<exists>this' h' cl'.
          load_loop (maxZoom os) (SuperCluster os) (leaves ps) [0..<length ps] = Inr (this', h', cl') \<and>
          loop_inv os (length ps) (minZoom os - 1) this' h' cl' \<and> Q h'"
  proof (rule load_loop_rule[OF loop_inv_init[OF vo], where Q = Q, OF q0])
    fix z this h cl h' out
    assume "Q h" "opts this = os" "tree_at (trees this) (z + 1) = Some cl" "distinct cl"
      "valid_refs h cl" "cluster this h cl z = Inr (h', out)"
    then show "Q h'" by (rule step)
  qed
  then obtain this1 h1 cl1 where
    ll: "load_loop (maxZoom os) (SuperCluster os) (leaves ps) [0..<length ps] = Inr (this1, h1, cl1)"
    and inv: "loop_inv os (length ps) (minZoom os - 1) this1 h1 cl1" and q: "Q h1"
    by blast
  have os1: "opts this1 = os" using inv by (simp add: loop_inv_def)
  have m0: "0 \<le> minZoom os" using vo by (simp add: valid_options_def)
  have empty: "tree_at (trees this1) (minZoom os) = Some []"
    using inv m0 by (simp add: loop_inv_def)
  define this2 where "this2 = this1\<lparr>trees := (trees this1)[nat (minZoom os) := cl1]\<rparr>"
  have tl: "tree_load this1 (minZoom os) cl1 = Inr this2"
    using empty by (simp add: tree_load_def rbush_load_def this2_def)
  have res: "load (SuperCluster os) empty_store ps = Inr (this2, h1)"
    using mp ll tl os1 by (simp add: load_def SuperCluster_def)
  have len: "int (length (trees this1)) = maxZoom os + 2" using inv by (simp add: loop_inv_def)
  have tiers: "\<And>k. minZoom os \<le> k \<and> k \<le> maxZoom os + 1 \<Longrightarrow>
                \<exists>t. tree_at (trees this2) k = Some t \<and> distinct t \<and> valid_refs h1 t \<and>
                    mass h1 t = length ps"
  proof -
    fix k assume k: "minZoom os \<le> k \<and> k \<le> maxZoom os + 1"
    show "\<exists>t. tree_at (trees this2) k = Some t \<and> distinct t \<and> valid_refs h1 t \<and>
              mass h1 t = length ps"
    proof (cases "k = minZoom os")
      case True
      have "tree_at (trees this2) k = Some cl1"
        using True m0 k len by (simp add: this2_def tree_at_update)
      then show ?thesis using inv by (simp add: loop_inv_def)
    next
      case False
      then have "minZoom os - 1 + 1 < k \<and> k \<le> maxZoom os + 1" using k by simp
      then obtain t where t: "tree_at (trees this1) k = Some t" "distinct t" "valid_refs h1 t"
        "mass h1 t = length ps"
        using inv unfolding loop_inv_def by blast
      have "tree_at (trees this2) k = Some t"
        using t(1) False m0 by (simp add: this2_def tree_at_update)
      then show ?thesis using t by simp
    qed
  qed
  show ?thesis
    using res os1 q len tiers by (simp add: this2_def)
qed

section \<open>Nodes in the unit square\<close>

lemma same_fields_unit: "same_fields a b \<Longrightarrow> unit_node a \<Longrightarrow> unit_node b"
  by (simp add: same_fields_def unit_node_def)

lemma weighted_sum_bounds:
  fixes c :: "ref \<Rightarrow> real" and w :: "ref \<Rightarrow> nat"
  assumes "\<And>b. b \<in> set bs \<Longrightarrow> 0 \<le> c b \<and> c b \<le> 1"
  shows "0 \<le> (\<Sum>b\<leftarrow>bs. c b * real (w b)) \<and> (\<Sum>b\<leftarrow>bs. c b * real (w b)) \<le> real (\<Sum>b\<leftarrow>bs. w b)"
  using assms
proof (induction bs)
  case Nil
  show ?case by simp
next
  case (Cons b bs)
  have 1: "0 \<le> c b * real (w b)" using Cons.prems[of b] by simp
  have 2: "c b * real (w b) \<le> real (w b)"
    using Cons.prems[of b] by (simp add: mult_left_le_one_le)
  have "0 \<le> (\<Sum>b\<leftarrow>bs. c b * real (w b)) \<and> (\<Sum>b\<leftarrow>bs. c b * real (w b)) \<le> real (\<Sum>b\<leftarrow>bs. w b)"
    using Cons by simp
  then show ?case using 1 2 by simp
qed

lemma weighted_mean_bounds:
  fixes a s :: real and n m :: nat
  assumes "0 \<le> a" "a \<le> 1" "0 \<le> s" "s \<le> real m" "1 \<le> n"
  shows "0 \<le> (a * real n + s) / real (n + m) \<and> (a * real n + s) / real (n + m) \<le> 1"
proof -
  have an: "a * real n \<le> real n" using mult_right_mono[of a 1 "real n"] assms by simp
  have "a * real n + s \<le> real n + real m" using an assms(4) by linarith
  then have "a * real n + s \<le> real (n + m)" by simp
  moreover have "0 \<le> a * real n + s" using assms by simp
  moreover have "0 < real (n + m)" using assms by simp
  ultimately show ?thesis by (simp add: divide_le_eq)
qed

lemma unit_aggregate:
  assumes p: "unit_node (nodes h ! i)" and bs: "\<And>b. b \<in> set bs \<Longrightarrow> unit_node (nodes h ! b)"
  shows "unit_node (aggregate h i bs)"
proof -
  let ?w = "\<lambda>b. numPoints (nodes h ! b)"
  have m: "mass h bs = (\<Sum>b\<leftarrow>bs. ?w b)" by (simp add: mass_def)
  have x: "0 \<le> (\<Sum>b\<leftarrow>bs. cx (nodes h ! b) * real (?w b)) \<and>
           (\<Sum>b\<leftarrow>bs. cx (nodes h ! b) * real (?w b)) \<le> real (mass h bs)"
    unfolding m by (rule weighted_sum_bounds) (use bs in \<open>simp add: unit_node_def\<close>)
  have y: "0 \<le> (\<Sum>b\<leftarrow>bs. cy (nodes h ! b) * real (?w b)) \<and>
           (\<Sum>b\<leftarrow>bs. cy (nodes h ! b) * real (?w b)) \<le> real (mass h bs)"
    unfolding m by (rule weighted_sum_bounds) (use bs in \<open>simp add: unit_node_def\<close>)
  have wx: "0 \<le> wx (aggregate h i bs) \<and> wx (aggregate h i bs) \<le> 1"
    unfolding aggregate_def Let_def node.select_convs
    by (rule weighted_mean_bounds) (use p x in \<open>simp_all add: unit_node_def\<close>)
  have wy: "0 \<le> wy (aggregate h i bs) \<and> wy (aggregate h i bs) \<le> 1"
    unfolding aggregate_def Let_def node.select_convs
    by (rule weighted_mean_bounds) (use p y in \<open>simp_all add: unit_node_def\<close>)
  show ?thesis
    using wx wy p unfolding unit_node_def by (simp add: aggregate_def Let_def)
qed

lemma unit_store_extends_same:
  assumes "unit_store h" and "length (nodes h') = length (nodes h)"
    and "\<And>j. same_fields (nodes h ! j) (nodes h' ! j)"
  shows "unit_store h'"
  using assms same_fields_unit unfolding unit_store_def by metis

lemma unit_store_step:
  assumes u: "unit_store h" and vi: "i < length (nodes h)" and vt: "valid_refs h t"
    and tree: "tree_at (trees this) (z + 1) = Some t"
    and vis: "visit this z i (h, out) = Inr (h', out')"
  shows "unit_store h'"
proof -
  let ?h1 = "set_zoom h i z"
  let ?bs = "neighbors_of this z t ?h1 i"
  have u1: "unit_store ?h1" by (rule unit_store_extends_same[OF u]) simp_all
  have u2: "unit_store (claim z ?h1 ?bs)"
    by (rule unit_store_extends_same[OF u1]) simp_all
  have "unit_store (merged z h i ?bs)"
  proof -
    have "\<And>b. b \<in> set ?bs \<Longrightarrow> b < length (nodes h)"
      using neighbors_of_subset[of this z t ?h1 i] vt by (auto simp: valid_refs_def)
    then have "unit_node (aggregate ?h1 i ?bs)"
      using u1 vi by (intro unit_aggregate) (simp_all add: unit_store_def)
    then show ?thesis
      using u2 unfolding unit_store_def merged_def by (simp add: nth_append less_Suc_eq)
  qed
  then show ?thesis using visit_result[OF vis tree] u u1 by auto
qed

lemma unit_store_cluster:
  assumes "unit_store h" and "valid_refs h points" and "valid_refs h t"
    and tree: "tree_at (trees this) (z + 1) = Some t"
    and c: "cluster this h points z = Inr (h', out)"
  shows "unit_store h'"
proof -
  let ?I = "\<lambda>rest acc. unit_store (fst acc) \<and> valid_refs (fst acc) rest \<and> valid_refs (fst acc) t"
  have "?I [] (h', out)"
    using c unfolding cluster_def
  proof (rule cluster_loop_rule)
    show "?I points (h, [])" using assms by simp
  next
    fix i rest acc acc'
    assume a: "?I (i # rest) acc" and v: "visit this z i acc = Inr acc'"
    obtain h1 o1 h2 o2 where e: "acc = (h1, o1)" "acc' = (h2, o2)"
      by (cases acc, cases acc') auto
    have ext: "extends h1 h2" using visit_extends[of this z i h1 o1 h2 o2] v e by simp
    have "unit_store h2"
      using unit_store_step[OF _ _ _ tree, of h1 i o1 h2 o2] a v e by (simp add: valid_refs_def)
    moreover have "valid_refs h2 rest" "valid_refs h2 t"
      using a e ext by (auto simp: valid_refs_def extends_def)
    ultimately show "?I rest acc'" using e by simp
  qed
  then show ?thesis by simp
qed

section \<open>The log of writes\<close>

lemma writes_to_snoc:
  "writes_to j (l @ [(i, z)]) = (if j = i then writes_to j l @ [z] else writes_to j l)"
  by (simp add: writes_to_def)

lemma strict_dec_last:
  "sorted_wrt (\<lambda>a b. b < a) ws \<Longrightarrow> w \<in> set ws \<Longrightarrow> last ws \<le> (w::int)"
proof (induction ws)
  case Nil
  then show ?case by simp
next
  case (Cons a ws)
  then show ?case by (cases "ws = []") (auto simp: less_imp_le dest: last_in_set)
qed

lemma strict_dec_snoc:
  assumes "sorted_wrt (\<lambda>a b. b < a) ws" and "lt_zoom z (last_zoom ws)"
  shows "sorted_wrt (\<lambda>a b. b < (a::int)) (ws @ [z])"
proof -
  have "\<And>w. w \<in> set ws \<Longrightarrow> z < w"
  proof -
    fix w assume w: "w \<in> set ws"
    then have "ws \<noteq> []" by auto
    then have "z < last ws" using assms(2) by (simp add: last_zoom_def)
    then show "z < w" using strict_dec_last[OF assms(1) w] by simp
  qed
  then show ?thesis using assms(1) by (simp add: sorted_wrt_append)
qed

lemma log_ok_set_zoom:
  assumes "log_ok h" and "i < length (nodes h)" and "lt_zoom z (zoom (nodes h ! i))"
  shows "log_ok (set_zoom h i z)"
  unfolding log_ok_def
proof (intro allI conjI)
  fix j
  show "sorted_wrt (\<lambda>a b. b < a) (writes_to j (zlog (set_zoom h i z)))"
  proof (cases "j = i")
    case True
    have "lt_zoom z (last_zoom (writes_to i (zlog h)))"
      using assms unfolding log_ok_def by (metis (full_types))
    then show ?thesis
      using True assms(1) by (simp add: writes_to_snoc strict_dec_snoc log_ok_def)
  next
    case False
    then show ?thesis using assms(1) by (simp add: writes_to_snoc log_ok_def)
  qed
  show "if j < length (nodes (set_zoom h i z))
        then zoom (nodes (set_zoom h i z) ! j) = last_zoom (writes_to j (zlog (set_zoom h i z)))
        else writes_to j (zlog (set_zoom h i z)) = []"
  proof (cases "j = i")
    case True
    then show ?thesis using assms(2) by (simp add: writes_to_snoc zoom_set_zoom last_zoom_def)
  next
    case False
    have "if j < length (nodes h) then zoom (nodes h ! j) = last_zoom (writes_to j (zlog h))
          else writes_to j (zlog h) = []"
      using assms(1) unfolding log_ok_def by blast
    then show ?thesis using False by (simp add: writes_to_snoc zoom_set_zoom)
  qed
qed

lemma log_ok_claim:
  assumes "log_ok h" and "distinct bs" and "\<And>b. b \<in> set bs \<Longrightarrow> b < length (nodes h)"
    and "\<And>b. b \<in> set bs \<Longrightarrow> lt_zoom z (zoom (nodes h ! b))"
  shows "log_ok (claim z h bs)"
  using assms
proof (induction bs arbitrary: h)
  case Nil
  then show ?case by simp
next
  case (Cons b bs)
  have 1: "log_ok (set_zoom h b z)"
    using Cons.prems by (intro log_ok_set_zoom) simp_all
  have 2: "\<And>c. c \<in> set bs \<Longrightarrow> lt_zoom z (zoom (nodes (set_zoom h b z) ! c))"
    using Cons.prems(2,4) by (auto simp: zoom_set_zoom)
  show ?case
    using Cons.IH[OF 1 _ _ 2] Cons.prems(2,3) by simp
qed

lemma log_ok_push:
  assumes "log_ok h" and "zoom n = Infinity"
  shows "log_ok (h\<lparr>nodes := nodes h @ [n]\<rparr>)"
  unfolding log_ok_def
proof (intro allI conjI)
  fix j
  have j: "sorted_wrt (\<lambda>a b. b < a) (writes_to j (zlog h))"
    "if j < length (nodes h) then zoom (nodes h ! j) = last_zoom (writes_to j (zlog h))
     else writes_to j (zlog h) = []"
    using assms(1) unfolding log_ok_def by blast+
  show "sorted_wrt (\<lambda>a b. b < a) (writes_to j (zlog (h\<lparr>nodes := nodes h @ [n]\<rparr>)))"
    using j(1) by simp
  show "if j < length (nodes (h\<lparr>nodes := nodes h @ [n]\<rparr>))
        then zoom (nodes (h\<lparr>nodes := nodes h @ [n]\<rparr>) ! j) =
             last_zoom (writes_to j (zlog (h\<lparr>nodes := nodes h @ [n]\<rparr>)))
        else writes_to j (zlog (h\<lparr>nodes := nodes h @ [n]\<rparr>)) = []"
    using j(2) assms(2) by (auto simp: nth_append last_zoom_def less_Suc_eq)
qed

lemma log_ok_step:
  assumes l: "log_ok h" and vi: "i < length (nodes h)" and vt: "valid_refs h t" and dt: "distinct t"
    and tree: "tree_at (trees this) (z + 1) = Some t"
    and vis: "visit this z i (h, out) = Inr (h', out')"
  shows "log_ok h'"
proof -
  let ?h1 = "set_zoom h i z"
  let ?bs = "neighbors_of this z t ?h1 i"
  have m: "lt_zoom z (zoom (nodes h ! i)) \<Longrightarrow> log_ok (merged z h i ?bs)"
  proof -
    assume lt: "lt_zoom z (zoom (nodes h ! i))"
    have 1: "log_ok ?h1" by (rule log_ok_set_zoom[OF l vi lt])
    have 2: "log_ok (claim z ?h1 ?bs)"
    proof (rule log_ok_claim[OF 1 neighbors_of_distinct[OF dt]])
      fix b assume b: "b \<in> set ?bs"
      show "b < length (nodes ?h1)"
        using b neighbors_of_subset[of this z t ?h1 i] vt by (auto simp: valid_refs_def)
      show "lt_zoom z (zoom (nodes ?h1 ! b))" using b by (rule neighbors_of_unclaimed)
    qed
    show ?thesis unfolding merged_def
      by (rule log_ok_push[OF 2]) (simp add: aggregate_def Let_def)
  qed
  show ?thesis
    using visit_result[OF vis tree] l m log_ok_set_zoom[OF l vi] by auto
qed

lemma log_ok_cluster:
  assumes "log_ok h" and "valid_refs h points" and "valid_refs h t" and dt: "distinct t"
    and tree: "tree_at (trees this) (z + 1) = Some t"
    and c: "cluster this h points z = Inr (h', out)"
  shows "log_ok h'"
proof -
  let ?I = "\<lambda>rest acc. log_ok (fst acc) \<and> valid_refs (fst acc) rest \<and> valid_refs (fst acc) t"
  have "?I [] (h', out)"
    using c unfolding cluster_def
  proof (rule cluster_loop_rule)
    show "?I points (h, [])" using assms by simp
  next
    fix i rest acc acc'
    assume a: "?I (i # rest) acc" and v: "visit this z i acc = Inr acc'"
    obtain h1 o1 h2 o2 where e: "acc = (h1, o1)" "acc' = (h2, o2)"
      by (cases acc, cases acc') auto
    have ext: "extends h1 h2" using visit_extends[of this z i h1 o1 h2 o2] v e by simp
    have "log_ok h2"
      using log_ok_step[OF _ _ _ dt tree, of h1 i o1 h2 o2] a v e by (simp add: valid_refs_def)
    moreover have "valid_refs h2 rest" "valid_refs h2 t"
      using a e ext by (auto simp: valid_refs_def extends_def)
    ultimately show "?I rest acc'" using e by simp
  qed
  then show ?thesis by simp
qed

section \<open>The shape of an aggregate\<close>

lemma same_fields_sym: "same_fields a b \<Longrightarrow> same_fields b a"
  by (simp add: same_fields_def)

lemma aggregate_cong:
  assumes "same_fields (nodes h ! p) (nodes h' ! p)"
    and "\<And>b. b \<in> set cs \<Longrightarrow> same_fields (nodes h ! b) (nodes h' ! b)"
  shows "aggregate h' p cs = aggregate h p cs"
proof -
  have 1: "map (\<lambda>b. cx (nodes h' ! b) * real (numPoints (nodes h' ! b))) cs =
           map (\<lambda>b. cx (nodes h ! b) * real (numPoints (nodes h ! b))) cs"
    by (rule map_cong) (use assms(2) in \<open>simp_all add: same_fields_def\<close>)
  have 2: "map (\<lambda>b. cy (nodes h' ! b) * real (numPoints (nodes h' ! b))) cs =
           map (\<lambda>b. cy (nodes h ! b) * real (numPoints (nodes h ! b))) cs"
    by (rule map_cong) (use assms(2) in \<open>simp_all add: same_fields_def\<close>)
  have 3: "mass h' cs = mass h cs"
    by (rule mass_cong) (use assms(2) in \<open>simp add: same_fields_def\<close>)
  show ?thesis
    unfolding aggregate_def Let_def 1 2 3 using assms(1) by (simp add: same_fields_def)
qed

lemma distSq_cong: "same_fields a a' \<Longrightarrow> same_fields b b' \<Longrightarrow> distSq a' b' = distSq a b"
  by (simp add: distSq_def same_fields_def)

lemma absorbed_extends:
  assumes e: "extends h h'" and a: "a < length (nodes h)" and p: "p < length (nodes h)"
    and t: "valid_refs h t" and ab: "absorbed this z t h a p cs"
  shows "absorbed this z t h' a p cs"
proof -
  have sf: "\<And>j. j < length (nodes h) \<Longrightarrow> same_fields (nodes h ! j) (nodes h' ! j)"
    using e by (simp add: extends_def)
  have cs: "\<And>b. b \<in> set cs \<Longrightarrow> b < length (nodes h)"
    using ab t by (auto simp: absorbed_def valid_refs_def)
  have ag: "aggregate h' p cs = aggregate h p cs"
    by (rule aggregate_cong) (simp_all add: sf p cs)
  have d: "\<And>b. b \<in> set cs \<Longrightarrow> distSq (nodes h' ! p) (nodes h' ! b) = distSq (nodes h ! p) (nodes h ! b)"
    by (rule distSq_cong) (simp_all add: sf p cs)
  have "same_fields (nodes h' ! a) (aggregate h p cs)"
    using same_fields_trans[OF same_fields_sym[OF sf[OF a]]] ab by (simp add: absorbed_def)
  then show ?thesis
    using ab d unfolding absorbed_def ag by (simp add: list_all_iff)
qed

lemma absorbed_merged:
  assumes vi: "i < length (nodes h)" and vt: "valid_refs h t"
  shows "neighbors_of this z t (set_zoom h i z) i \<noteq> [] \<Longrightarrow>
         absorbed this z t (merged z h i (neighbors_of this z t (set_zoom h i z) i))
           (length (nodes h)) i (neighbors_of this z t (set_zoom h i z) i)"
proof -
  let ?h1 = "set_zoom h i z"
  let ?bs = "neighbors_of this z t ?h1 i"
  let ?h' = "merged z h i ?bs"
  assume ne: "?bs \<noteq> []"
  have v: "\<And>b. b \<in> set ?bs \<Longrightarrow> b < length (nodes h)"
    using neighbors_of_subset[of this z t ?h1 i] vt by (auto simp: valid_refs_def)
  have sf: "\<And>j. j < length (nodes h) \<Longrightarrow> same_fields (nodes ?h1 ! j) (nodes ?h' ! j)"
    by (simp add: nth_merged_old)
  have ag: "aggregate ?h' i ?bs = aggregate ?h1 i ?bs"
    by (rule aggregate_cong) (simp_all add: sf vi v)
  have ni: "i \<notin> set ?bs"
    using neighbors_of_unclaimed[of i this z t ?h1 i] vi by (auto simp: zoom_set_zoom)
  have d: "\<And>b. b \<in> set ?bs \<Longrightarrow>
             distSq (nodes ?h' ! i) (nodes ?h' ! b) = distSq (nodes ?h1 ! i) (nodes ?h1 ! b)"
    by (rule distSq_cong) (simp_all add: sf vi v)
  show ?thesis
    unfolding absorbed_def ag
    using ne ni neighbors_of_subset[of this z t ?h1 i] d neighbors_of_near[of _ this z t ?h1 i]
    by (simp add: list_all_iff)
qed

lemma cluster_shape:
  assumes tree: "tree_at (trees this) (z + 1) = Some t" and vt: "valid_refs h t"
    and vp: "valid_refs h points" and c: "cluster this h points z = Inr (h', out)"
    and a: "a \<in> set out" and new: "a \<notin> set points"
  shows "length (nodes h) \<le> a \<and> a < length (nodes h') \<and>
         (\<exists>p cs. p \<in> set points \<and> absorbed this z t h' a p cs)"
proof -
  let ?I = "\<lambda>rest acc. extends h (fst acc) \<and> set rest \<subseteq> set points \<and>
              (\<forall>a\<in>set (snd acc). a \<in> set points \<or>
                 (length (nodes h) \<le> a \<and> a < length (nodes (fst acc)) \<and>
                  (\<exists>p cs. p \<in> set points \<and> absorbed this z t (fst acc) a p cs)))"
  have "?I [] (h', out)"
    using c unfolding cluster_def
  proof (rule cluster_loop_rule)
    show "?I points (h, [])" by simp
  next
    fix i rest acc acc'
    assume inv: "?I (i # rest) acc" and v: "visit this z i acc = Inr acc'"
    obtain h1 o1 h2 o2 where e: "acc = (h1, o1)" "acc' = (h2, o2)"
      by (cases acc, cases acc') auto
    have vis: "visit this z i (h1, o1) = Inr (h2, o2)" using v e by simp
    have ext1: "extends h h1" and ip: "i \<in> set points" and rp: "set rest \<subseteq> set points"
      using inv e by simp_all
    have ext: "extends h1 h2" by (rule visit_extends[OF vis])
    have vt1: "valid_refs h1 t" by (rule extends_valid[OF ext1 vt])
    have vp1: "\<And>p. p \<in> set points \<Longrightarrow> p < length (nodes h1)"
      using extends_valid[OF ext1 vp] by (simp add: valid_refs_def)
    have len: "length (nodes h) \<le> length (nodes h1)" "length (nodes h1) \<le> length (nodes h2)"
      using ext1 ext by (simp_all add: extends_def)
    have old: "\<And>a. a \<in> set o1 \<Longrightarrow> a \<in> set points \<or>
                 (length (nodes h) \<le> a \<and> a < length (nodes h2) \<and>
                  (\<exists>p cs. p \<in> set points \<and> absorbed this z t h2 a p cs))"
    proof -
      fix a assume "a \<in> set o1"
      then consider "a \<in> set points"
        | p cs where "length (nodes h) \<le> a" "a < length (nodes h1)" "p \<in> set points"
            "absorbed this z t h1 a p cs"
        using inv e by auto
      then show "a \<in> set points \<or>
                 (length (nodes h) \<le> a \<and> a < length (nodes h2) \<and>
                  (\<exists>p cs. p \<in> set points \<and> absorbed this z t h2 a p cs))"
      proof cases
        case 1
        then show ?thesis by simp
      next
        case 2
        have "absorbed this z t h2 a p cs"
          by (rule absorbed_extends[OF ext 2(2) vp1[OF 2(3)] vt1 2(4)])
        then show ?thesis using 2 len by auto
      qed
    qed
    let ?bs = "neighbors_of this z t (set_zoom h1 i z) i"
    consider "o2 = o1" | "o2 = o1 @ [i]"
      | "?bs \<noteq> []" "h2 = merged z h1 i ?bs" "o2 = o1 @ [length (nodes h1)]"
      using visit_result[OF vis tree] by blast
    then have "\<forall>a\<in>set o2. a \<in> set points \<or>
                 (length (nodes h) \<le> a \<and> a < length (nodes h2) \<and>
                  (\<exists>p cs. p \<in> set points \<and> absorbed this z t h2 a p cs))"
    proof cases
      case 1
      then show ?thesis using old by simp
    next
      case 2
      then show ?thesis using old ip by auto
    next
      case 3
      have "absorbed this z t h2 (length (nodes h1)) i ?bs"
        unfolding 3(2) by (rule absorbed_merged[OF vp1[OF ip] vt1 3(1)])
      then have "length (nodes h) \<le> length (nodes h1) \<and> length (nodes h1) < length (nodes h2) \<and>
                 (\<exists>p cs. p \<in> set points \<and> absorbed this z t h2 (length (nodes h1)) p cs)"
        using ip len(1) 3(2) by auto
      then show ?thesis using old 3(3) by auto
    qed
    then show "?I rest acc'"
      using e rp extends_trans[OF ext1 ext] by simp
  qed
  then show ?thesis using a new by auto
qed

section \<open>Running the model\<close>

lemma latY_0: "latY 0 = 1 / 2"
  by (simp add: latY_def)

lemmas run_simps =
  pt_def small_options_def createPointCluster_def alloc_def empty_store_def lngX_def latY_0
  createCluster_def load_def SuperCluster_def initTrees_def tree_load_def tree_at_def
  rbush_load_def cluster_def getNeighbors_def search_radius_def pow2_def rbush_search_def
  in_bbox_def distSq_def set_zoom_def Let_def visit.simps result_nodes_def result_trees_def
  eval_nat_numeral

section \<open>Mass conservation\<close>

text \<open>
  C3, amended. After the first \<open>load\<close> on a newly constructed instance, with \<open>n\<close> features,
  every tier from \<open>minZoom\<close> to \<open>maxZoom + 1\<close> has a tree, and the \<open>numPoints\<close> of the nodes
  in that tree add up to \<open>n\<close>. The options are to satisfy \<open>0 \<le> minZoom \<le> maxZoom + 1\<close>
  (otherwise \<open>load\<close> reads a tree that does not exist) and to have an extent other than
  zero, and every feature is to have coordinates; \<open>load\<close> then returns.
\<close>

theorem mass_conservation:
  assumes "valid_options os" and "\<forall>p\<in>set ps. coordinates p \<noteq> None"
  shows "\<exists>this' h'. load (SuperCluster os) empty_store ps = Inr (this', h') \<and>
           (\<forall>k. minZoom os \<le> k \<and> k \<le> maxZoom os + 1 \<longrightarrow>
              (\<exists>t. tree_at (trees this') k = Some t \<and> mass h' t = length ps))"
proof -
  have "\<exists>this' h'. load (SuperCluster os) empty_store ps = Inr (this', h') \<and> opts this' = os \<and>
           int (length (trees this')) = maxZoom os + 2 \<and> True \<and>
           (\<forall>k. minZoom os \<le> k \<and> k \<le> maxZoom os + 1 \<longrightarrow>
              (\<exists>t. tree_at (trees this') k = Some t \<and> distinct t \<and> valid_refs h' t \<and>
                   mass h' t = length ps))"
    by (rule load_rule[OF assms, where Q = "\<lambda>h. True"]) simp_all
  then show ?thesis by blast
qed

theorem mass_conservation_witness:
  "valid_options (small_options 1) \<and>
   (\<exists>this' h'. load (SuperCluster (small_options 1)) empty_store [pt (-18), pt 0, pt 9] = Inr (this', h') \<and>
      (\<exists>t. tree_at (trees this') 1 = Some t \<and> mass h' t = 3))"
proof -
  have v: "valid_options (small_options 1)" by (simp add: valid_options_def small_options_def)
  have c: "\<forall>p\<in>set [pt (-18), pt 0, pt 9]. coordinates p \<noteq> None" by (simp add: pt_def)
  obtain this' h' where
    l: "load (SuperCluster (small_options 1)) empty_store [pt (-18), pt 0, pt 9] = Inr (this', h')"
    and m: "\<forall>k. minZoom (small_options 1) \<le> k \<and> k \<le> maxZoom (small_options 1) + 1 \<longrightarrow>
              (\<exists>t. tree_at (trees this') k = Some t \<and>
                   mass h' t = length [pt (-18), pt 0, pt 9])"
    using mass_conservation[OF v c] by blast
  have "\<exists>t. tree_at (trees this') 1 = Some t \<and> mass h' t = 3"
    using m[rule_format, of 1] by (simp add: small_options_def numeral_3_eq_3)
  then show ?thesis using v l by blast
qed

text \<open>
  The claim C3 as it is written, for any call of \<open>load\<close>, fails: \<open>load\<close> adds to
  \<open>this.trees\<close> and never empties them (lines 43 and 48), so a second \<open>load\<close> of two features
  on the same instance leaves every tier with a sum of 4.
\<close>

theorem second_load_counterexample:
  "tier_masses (load (SuperCluster (small_options 0)) empty_store [pt 0, pt 90]) = [2, 2] \<and>
   length [pt 0, pt 90] = 2 \<and>
   tier_masses (load_twice (small_options 0) [pt 0, pt 90] [pt 0, pt 90]) = [4, 4]"
  by (simp add: load_twice_def tier_masses_def mass_def run_simps)

lemma log_ok_leaves: "log_ok (leaves ps)"
  by (simp add: log_ok_def leaves_def writes_to_def last_zoom_def)

lemma count_writes_to: "count_list l (i, z) = count_list (writes_to i l) z"
  by (induction l) (auto simp: writes_to_def)

lemma strict_dec_count: "sorted_wrt (\<lambda>a b. b < a) ws \<Longrightarrow> count_list ws (z::int) \<le> 1"
proof (induction ws)
  case Nil
  show ?case by simp
next
  case (Cons a ws)
  then have "z = a \<Longrightarrow> z \<notin> set ws" by auto
  then have "z = a \<Longrightarrow> count_list ws z = 0" by (simp add: count_list_0_iff)
  then show ?case using Cons by auto
qed

lemma visit_writes_value:
  assumes "visit this z i (h, out) = Inr (h', out')"
  shows "\<exists>new. zlog h' = zlog h @ new \<and> (\<forall>w\<in>set new. snd w = z)"
  using visit_cases[OF assms] by (auto simp: merged_def[symmetric])

lemma cluster_writes_value:
  assumes "cluster this h points z = Inr (h', out)"
  shows "\<exists>new. zlog h' = zlog h @ new \<and> (\<forall>w\<in>set new. snd w = z)"
proof -
  let ?I = "\<lambda>rest acc. \<exists>new. zlog (fst acc) = zlog h @ new \<and> (\<forall>w\<in>set new. snd w = z)"
  have "?I [] (h', out)"
    using assms unfolding cluster_def
  proof (rule cluster_loop_rule)
    show "?I points (h, [])" by simp
  next
    fix i rest acc acc'
    assume a: "?I (i # rest) acc" and v: "visit this z i acc = Inr acc'"
    obtain h1 o1 h2 o2 where e: "acc = (h1, o1)" "acc' = (h2, o2)"
      by (cases acc, cases acc') auto
    obtain new1 where n1: "zlog h1 = zlog h @ new1" "\<forall>w\<in>set new1. snd w = z"
      using a e by auto
    obtain new2 where n2: "zlog h2 = zlog h1 @ new2" "\<forall>w\<in>set new2. snd w = z"
      using visit_writes_value[of this z i h1 o1 h2 o2] v e by auto
    have "zlog h2 = zlog h @ (new1 @ new2) \<and> (\<forall>w\<in>set (new1 @ new2). snd w = z)"
      using n1 n2 by auto
    then show "?I rest acc'" using e by (simp only: fst_conv) blast
  qed
  then show ?thesis by simp
qed

section \<open>The writes to the zoom field\<close>

text \<open>
  C9. Over a whole \<open>load\<close> on a new instance, the values assigned to the \<open>zoom\<close> field of
  any one node, read off \<open>zlog\<close> in the order in which they were assigned, are strictly
  decreasing, and no node is assigned the same zoom level twice. A pass at zoom \<open>z\<close> assigns
  only the value \<open>z\<close> (\<open>cluster_writes_value\<close>), so within one pass a node's field is written
  at most once; before its first write the field holds \<open>Infinity\<close> (\<open>createCluster\<close>).
\<close>
theorem zoom_written_decreasing:
  assumes "valid_options os" and "\<forall>p\<in>set ps. coordinates p \<noteq> None"
  shows "\<exists>this' h'. load (SuperCluster os) empty_store ps = Inr (this', h') \<and>
           (\<forall>i. sorted_wrt (\<lambda>a b. b < a) (writes_to i (zlog h'))) \<and>
           (\<forall>i z. count_list (zlog h') (i, z) \<le> 1)"
proof -
  have "\<exists>this' h'. load (SuperCluster os) empty_store ps = Inr (this', h') \<and> opts this' = os \<and>
           int (length (trees this')) = maxZoom os + 2 \<and> log_ok h' \<and>
           (\<forall>k. minZoom os \<le> k \<and> k \<le> maxZoom os + 1 \<longrightarrow>
              (\<exists>t. tree_at (trees this') k = Some t \<and> distinct t \<and> valid_refs h' t \<and>
                   mass h' t = length ps))"
  proof (rule load_rule[OF assms, where Q = log_ok])
    show "log_ok (leaves ps)" by (rule log_ok_leaves)
  next
    fix z this h cl h' out
    assume "log_ok h" "tree_at (trees this) (z + 1) = Some cl" "distinct cl" "valid_refs h cl"
      "cluster this h cl z = Inr (h', out)"
    then show "log_ok h'" using log_ok_cluster[of h cl cl this z h' out] by simp
  qed
  then obtain this' h' where l: "load (SuperCluster os) empty_store ps = Inr (this', h')"
    and ok: "log_ok h'" by blast
  have s: "\<And>i. sorted_wrt (\<lambda>a b. b < a) (writes_to i (zlog h'))"
    using ok unfolding log_ok_def by blast
  have "\<And>i z. count_list (zlog h') (i, z) \<le> 1"
    unfolding count_writes_to by (rule strict_dec_count[OF s])
  then show ?thesis using l s by blast
qed

theorem zoom_written_decreasing_witness:
  "valid_options (small_options 1) \<and>
   (\<exists>this' h'. load (SuperCluster (small_options 1)) empty_store [pt (-18), pt 0, pt 9] = Inr (this', h') \<and>
      sorted_wrt (\<lambda>a b. b < a) (writes_to 0 (zlog h')) \<and> count_list (zlog h') (0, 1) \<le> 1)"
proof -
  have v: "valid_options (small_options 1)" by (simp add: valid_options_def small_options_def)
  have c: "\<forall>p\<in>set [pt (-18), pt 0, pt 9]. coordinates p \<noteq> None" by (simp add: pt_def)
  show ?thesis using v zoom_written_decreasing[OF v c] by blast
qed

lemma latY_range: "0 \<le> latY lat \<and> latY lat \<le> 1"
  by (simp add: latY_def Let_def)

lemma unit_leaves:
  assumes "\<forall>p\<in>set ps. \<exists>lng lat. coordinates p = Some (lng, lat) \<and> - 180 \<le> lng \<and> lng \<le> 180"
  shows "unit_store (leaves ps)"
  unfolding unit_store_def
proof (intro allI impI)
  fix j assume "j < length (nodes (leaves ps))"
  then have j: "j < length ps" by (simp add: leaves_def)
  then obtain lng lat where c: "coordinates (ps ! j) = Some (lng, lat)" "- 180 \<le> lng" "lng \<le> 180"
    using assms nth_mem by blast
  have "unit_node (leaf (ps ! j))"
    using c latY_range[of lat] by (simp add: leaf_def unit_node_def createCluster_def lngX_def)
  then show "unit_node (nodes (leaves ps) ! j)" using j by (simp add: leaves_def)
qed

section \<open>Coordinates in the unit square\<close>

text \<open>
  C7, amended. \<open>latY\<close> returns a value in [0,1] for every latitude. \<open>lngX\<close> does not clamp, so
  the claim holds for inputs whose longitudes lie in [-180,180]: then \<open>load\<close> on a new
  instance returns, and \<open>x\<close>, \<open>y\<close>, \<open>wx\<close>, \<open>wy\<close> of every node it created lie in [0,1].
\<close>
theorem coordinates_in_unit_square:
  assumes "valid_options os"
    and "\<forall>p\<in>set ps. \<exists>lng lat. coordinates p = Some (lng, lat) \<and> - 180 \<le> lng \<and> lng \<le> 180"
  shows "(\<forall>lat. 0 \<le> latY lat \<and> latY lat \<le> 1) \<and>
         (\<exists>this' h'. load (SuperCluster os) empty_store ps = Inr (this', h') \<and>
            (\<forall>n\<in>set (nodes h'). 0 \<le> cx n \<and> cx n \<le> 1 \<and> 0 \<le> cy n \<and> cy n \<le> 1 \<and>
                                 0 \<le> wx n \<and> wx n \<le> 1 \<and> 0 \<le> wy n \<and> wy n \<le> 1))"
proof -
  have co: "\<forall>p\<in>set ps. coordinates p \<noteq> None" using assms(2) by fastforce
  have "\<exists>this' h'. load (SuperCluster os) empty_store ps = Inr (this', h') \<and> opts this' = os \<and>
           int (length (trees this')) = maxZoom os + 2 \<and> unit_store h' \<and>
           (\<forall>k. minZoom os \<le> k \<and> k \<le> maxZoom os + 1 \<longrightarrow>
              (\<exists>t. tree_at (trees this') k = Some t \<and> distinct t \<and> valid_refs h' t \<and>
                   mass h' t = length ps))"
  proof (rule load_rule[OF assms(1) co, where Q = unit_store])
    show "unit_store (leaves ps)" by (rule unit_leaves[OF assms(2)])
  next
    fix z this h cl h' out
    assume "unit_store h" "tree_at (trees this) (z + 1) = Some cl" "valid_refs h cl"
      "cluster this h cl z = Inr (h', out)"
    then show "unit_store h'" using unit_store_cluster[of h cl cl this z h' out] by simp
  qed
  then obtain this' h' where l: "load (SuperCluster os) empty_store ps = Inr (this', h')"
    and u: "unit_store h'" by blast
  have "\<forall>n\<in>set (nodes h'). unit_node n"
    using u by (auto simp: unit_store_def in_set_conv_nth)
  then have "\<forall>n\<in>set (nodes h'). 0 \<le> cx n \<and> cx n \<le> 1 \<and> 0 \<le> cy n \<and> cy n \<le> 1 \<and>
                                 0 \<le> wx n \<and> wx n \<le> 1 \<and> 0 \<le> wy n \<and> wy n \<le> 1"
    by (simp add: unit_node_def)
  then show ?thesis using l latY_range by blast
qed

theorem coordinates_in_unit_square_witness:
  "valid_options (small_options 1) \<and> 0 \<le> latY 0 \<and> latY 0 \<le> 1 \<and>
   (\<exists>this' h'. load (SuperCluster (small_options 1)) empty_store [pt (-18), pt 0, pt 9] = Inr (this', h') \<and>
       list_all (\<lambda>n. 0 \<le> cx n \<and> cx n \<le> 1 \<and> 0 \<le> cy n \<and> cy n \<le> 1 \<and>
                     0 \<le> wx n \<and> wx n \<le> 1 \<and> 0 \<le> wy n \<and> wy n \<le> 1) (nodes h'))"
proof -
  have v: "valid_options (small_options 1)" by (simp add: valid_options_def small_options_def)
  have c: "\<forall>p\<in>set [pt (-18), pt 0, pt 9].
             \<exists>lng lat. coordinates p = Some (lng, lat) \<and> - 180 \<le> lng \<and> lng \<le> 180"
    by (simp add: pt_def)
  show ?thesis
    using v coordinates_in_unit_square[OF v c] unfolding list_all_iff by blast
qed

text \<open>
  The claim C7 as it is written fails: a feature at longitude 540 is loaded, and its node
  has \<open>x = 2\<close>.
\<close>

theorem longitude_out_of_range_counterexample:
  "map cx (result_nodes (load (SuperCluster (small_options 0)) empty_store [pt 540])) = [2]"
  by (simp add: run_simps)

section \<open>When load fails\<close>

text \<open>
  C5, amended. \<open>load\<close> on a new instance fails exactly when some feature has no
  coordinates to read (a \<open>TypeError\<close>); it never rejects a feature for the values of its
  coordinates: when every feature has a pair of numbers as coordinates \<open>load\<close> returns,
  whatever the longitudes and latitudes are.
\<close>
theorem load_fails_iff:
  assumes "valid_options os"
  shows "((\<exists>p\<in>set ps. coordinates p = None) \<longrightarrow> load (SuperCluster os) empty_store ps = Inl TypeError) \<and>
         ((\<forall>p\<in>set ps. coordinates p \<noteq> None) \<longrightarrow>
            (\<exists>this' h'. load (SuperCluster os) empty_store ps = Inr (this', h')))"
proof (intro conjI impI)
  assume "\<exists>p\<in>set ps. coordinates p = None"
  then show "load (SuperCluster os) empty_store ps = Inl TypeError"
    by (simp add: load_def map_points_error)
next
  assume co: "\<forall>p\<in>set ps. coordinates p \<noteq> None"
  have "\<exists>this' h'. load (SuperCluster os) empty_store ps = Inr (this', h') \<and> opts this' = os \<and>
           int (length (trees this')) = maxZoom os + 2 \<and> True \<and>
           (\<forall>k. minZoom os \<le> k \<and> k \<le> maxZoom os + 1 \<longrightarrow>
              (\<exists>t. tree_at (trees this') k = Some t \<and> distinct t \<and> valid_refs h' t \<and>
                   mass h' t = length ps))"
    by (rule load_rule[OF assms co, where Q = "\<lambda>h. True"]) simp_all
  then show "\<exists>this' h'. load (SuperCluster os) empty_store ps = Inr (this', h')" by blast
qed

theorem load_fails_iff_witness:
  "valid_options (small_options 0) \<and>
   load (SuperCluster (small_options 0)) empty_store [pt 0, \<lparr>coordinates = None, payload = 1\<rparr>] = Inl TypeError \<and>
   (\<exists>this' h'. load (SuperCluster (small_options 0)) empty_store [pt 0, pt 1000] = Inr (this', h'))"
proof -
  have v: "valid_options (small_options 0)" by (simp add: valid_options_def small_options_def)
  show ?thesis
    using v load_fails_iff[OF v, of "[pt 0, \<lparr>coordinates = None, payload = 1\<rparr>]"]
      load_fails_iff[OF v, of "[pt 0, pt 1000]"]
    by (simp add: pt_def)
qed

text \<open>
  The claim C5 as it is written fails: a feature at longitude 1000 is not rejected.
\<close>

theorem load_accepts_any_longitude_counterexample:
  "load (SuperCluster (small_options 0)) empty_store [pt 1000] =
     Inr (\<lparr>opts = small_options 0, trees = [[0], [0]]\<rparr>,
          \<lparr>nodes = [\<lparr>cx = 59 / 18, cy = 1 / 2, wx = 59 / 18, wy = 1 / 2, zoom = Fin 0,
                     children = None, point = Some (pt 1000), numPoints = 1\<rparr>],
           zlog = [(0, 0)]\<rparr>)"
  by (simp add: run_simps)

lemmas ex_simps = ex_this_def ex_store_def run_simps

lemma ex_neighbors: "getNeighbors ex_this (set_zoom ex_store 0 0) 0 0 = Inr [1, 2]"
  by (simp add: ex_simps)

lemma ex_cluster:
  "cluster ex_this ex_store [0, 1, 2] 0 =
     Inr (\<lparr>nodes = [(createCluster (1 / 2) (1 / 2))\<lparr>zoom := Fin 0\<rparr>,
                    (createCluster (57 / 100) (1 / 2))\<lparr>zoom := Fin 0\<rparr>,
                    (createCluster (43 / 100) (1 / 2))\<lparr>zoom := Fin 0\<rparr>,
                    (createCluster (1 / 2) (1 / 2))\<lparr>children := Some [1, 2], numPoints := 3\<rparr>],
            zlog = [(0, 0), (1, 0), (2, 0)]\<rparr>, [3])"
  by (simp add: ex_simps)

section \<open>The claiming node and its candidates\<close>

text \<open>
  C10. When the loop of \<open>_cluster\<close> reaches an unclaimed node \<open>p\<close> (reference \<open>i\<close>), it
  sets \<open>p.zoom\<close> to \<open>z\<close> and then asks for the neighbors. The list it gets does not contain
  \<open>p\<close>; when the list is not empty, the aggregate that is emitted has exactly that list as
  its children, and its \<open>numPoints\<close> is \<open>p\<close>'s plus the sum over the list, so \<open>p\<close> is counted
  once and is not a child of its own aggregate.
\<close>
theorem claimer_not_candidate:
  assumes "i < length (nodes h)" and "lt_zoom z (zoom (nodes h ! i))"
    and "getNeighbors this (set_zoom h i z) i z = Inr bs" and "bs \<noteq> []"
  shows "i \<notin> set bs \<and>
         (\<exists>h'. visit this z i (h, out) = Inr (h', out @ [length (nodes h)]) \<and>
            children (nodes h' ! length (nodes h)) = Some bs \<and>
            numPoints (nodes h' ! length (nodes h)) = numPoints (nodes h ! i) + mass h bs)"
proof -
  obtain t where t: "tree_at (trees this) (z + 1) = Some t"
    and bs: "bs = neighbors_of this z t (set_zoom h i z) i"
    using assms(3) by (auto simp: getNeighbors_eq split: option.splits)
  have "\<not> lt_zoom z (zoom (nodes (set_zoom h i z) ! i))"
    using assms(1) by (simp add: zoom_set_zoom)
  then have 1: "i \<notin> set bs"
    unfolding bs using neighbors_of_unclaimed[of i this z t "set_zoom h i z" i] by blast
  have 2: "visit this z i (h, out) = Inr (merged z h i bs, out @ [length (nodes h)])"
    using visit_merge[OF assms(2,3,4)] by (simp add: merged_def)
  have 3: "children (nodes (merged z h i bs) ! length (nodes h)) = Some bs"
    by (simp add: aggregate_def Let_def)
  have 4: "numPoints (nodes (merged z h i bs) ! length (nodes h)) = numPoints (nodes h ! i) + mass h bs"
    using assms(1) by (simp add: numPoints_aggregate)
  show ?thesis using 1 2 3 4 by blast
qed

theorem claimer_not_candidate_witness:
  "0 < length (nodes ex_store) \<and> lt_zoom 0 (zoom (nodes ex_store ! 0)) \<and>
   getNeighbors ex_this (set_zoom ex_store 0 0) 0 0 = Inr [1, 2] \<and> 0 \<notin> set [1, 2 :: nat] \<and>
   (\<exists>h'. visit ex_this 0 0 (ex_store, []) = Inr (h', [3]) \<and>
      children (nodes h' ! 3) = Some [1, 2] \<and> numPoints (nodes h' ! 3) = 3)"
proof -
  have a: "0 < length (nodes ex_store)" by (simp add: ex_store_def)
  have b: "lt_zoom 0 (zoom (nodes ex_store ! 0))" by (simp add: ex_store_def createCluster_def)
  have c: "[1, 2] \<noteq> ([] :: ref list)" by simp
  have m: "mass ex_store [1, 2] = 2" by (simp add: mass_def ex_store_def createCluster_def)
  have n: "length (nodes ex_store) = 3" "numPoints (nodes ex_store ! 0) = 1"
    by (simp_all add: ex_store_def createCluster_def)
  obtain h' where
    v: "visit ex_this 0 0 (ex_store, []) = Inr (h', [] @ [length (nodes ex_store)])"
    and ch: "children (nodes h' ! length (nodes ex_store)) = Some [1, 2]"
    and np: "numPoints (nodes h' ! length (nodes ex_store)) =
               numPoints (nodes ex_store ! 0) + mass ex_store [1, 2]"
    using claimer_not_candidate[OF a b ex_neighbors c, of "[]"] by blast
  have "visit ex_this 0 0 (ex_store, []) = Inr (h', [3]) \<and>
        children (nodes h' ! 3) = Some [1, 2] \<and> numPoints (nodes h' ! 3) = 3"
    using v ch np unfolding m n by simp
  moreover have "0 \<notin> set [1, 2 :: nat]" by simp
  ultimately show ?thesis using a b ex_neighbors by blast
qed

section \<open>The aggregates of a pass\<close>



text \<open>
  C4, amended. Every child of an aggregate that a pass at zoom \<open>z\<close> emits lies within the
  search radius of the aggregate's anchor, which is the anchor of the claiming node: a node
  farther than the radius from the claiming node is not absorbed by it.
\<close>
theorem absorbed_within_radius:
  assumes "extent (opts this) \<noteq> 0"
    and "tree_at (trees this) (z + 1) = Some t" and "valid_refs h t" and "valid_refs h points"
    and "cluster this h points z = Inr (h', out)" and "a \<in> set out" and "a \<notin> set points"
    and "children (nodes h' ! a) = Some cs" and "b \<in> set cs"
  shows "distSq (nodes h' ! a) (nodes h' ! b)
           \<le> search_radius (opts this) z * search_radius (opts this) z"
proof -
  obtain p cs' where p: "p \<in> set points" and ab: "absorbed this z t h' a p cs'"
    using cluster_shape[OF assms(2-7)] by blast
  have sf: "same_fields (nodes h' ! a) (aggregate h' p cs')" using ab by (simp add: absorbed_def)
  then have "cs' = cs" using assms(8) by (simp add: same_fields_def aggregate_def Let_def)
  then have "distSq (nodes h' ! p) (nodes h' ! b)
               \<le> search_radius (opts this) z * search_radius (opts this) z"
    using ab assms(9) by (simp add: absorbed_def list_all_iff)
  moreover have "distSq (nodes h' ! a) (nodes h' ! b) = distSq (nodes h' ! p) (nodes h' ! b)"
    using sf by (simp add: distSq_def same_fields_def aggregate_def Let_def)
  ultimately show ?thesis by simp
qed

theorem absorbed_within_radius_witness:
  "\<exists>h'. cluster ex_this ex_store [0, 1, 2] 0 = Inr (h', [3]) \<and>
     children (nodes h' ! 3) = Some [1, 2] \<and>
     distSq (nodes h' ! 3) (nodes h' ! 2)
       \<le> search_radius (opts ex_this) 0 * search_radius (opts ex_this) 0"
proof -
  let ?h' = "\<lparr>nodes = [(createCluster (1 / 2) (1 / 2))\<lparr>zoom := Fin 0\<rparr>,
                    (createCluster (57 / 100) (1 / 2))\<lparr>zoom := Fin 0\<rparr>,
                    (createCluster (43 / 100) (1 / 2))\<lparr>zoom := Fin 0\<rparr>,
                    (createCluster (1 / 2) (1 / 2))\<lparr>children := Some [1, 2], numPoints := 3\<rparr>],
            zlog = [(0, 0), (1, 0), (2, 0)]\<rparr>"
  have t: "tree_at (trees ex_this) (0 + 1) = Some [0, 1, 2]"
    by (simp add: ex_this_def tree_at_def)
  have v: "valid_refs ex_store [0, 1, 2]" by (simp add: valid_refs_def ex_store_def)
  have a: "(3::nat) \<in> set [3]" "(3::nat) \<notin> set [0, 1, 2]" by simp_all
  have c: "children (nodes ?h' ! 3) = Some [1, 2]" by (simp add: eval_nat_numeral)
  have b: "(2::nat) \<in> set [1, 2]" by simp
  have e: "extent (opts ex_this) \<noteq> 0" by (simp add: ex_this_def small_options_def)
  show ?thesis
    using absorbed_within_radius[OF e t v v ex_cluster a c b] ex_cluster c by blast
qed

text \<open>
  The claim C4 as it is written fails: two absorbed nodes can be farther apart than the
  radius. The features at longitudes 25.2 and -25.2 are 0.14 apart in the plane, the radius
  at zoom 0 is 0.078125, and both become children of the aggregate of the feature at 0.
\<close>
theorem separated_points_merged_counterexample:
  "result_trees (load (SuperCluster (small_options 0)) empty_store [pt 0, pt (126 / 5), pt (- 126 / 5)])
     = [[3], [0, 1, 2]] \<and>
   children (result_nodes (load (SuperCluster (small_options 0)) empty_store
                             [pt 0, pt (126 / 5), pt (- 126 / 5)]) ! 3) = Some [1, 2] \<and>
   search_radius (small_options 0) 0 * search_radius (small_options 0) 0
     < distSq (result_nodes (load (SuperCluster (small_options 0)) empty_store
                               [pt 0, pt (126 / 5), pt (- 126 / 5)]) ! 1)
              (result_nodes (load (SuperCluster (small_options 0)) empty_store
                               [pt 0, pt (126 / 5), pt (- 126 / 5)]) ! 2)"
  by (simp add: run_simps)


section \<open>The weighted center\<close>

text \<open>
  What lines 91 to 110 compute for every aggregate of a pass: the claiming node enters with
  its weighted center \<open>wx\<close>, \<open>wy\<close>, each child with its anchor \<open>x\<close>, \<open>y\<close>.
\<close>

lemma aggregate_center_formula:
  assumes "tree_at (trees this) (z + 1) = Some t" and "valid_refs h t" and "valid_refs h points"
    and "cluster this h points z = Inr (h', out)" and "a \<in> set out" and "a \<notin> set points"
  shows "\<exists>p cs. p \<in> set points \<and> children (nodes h' ! a) = Some cs \<and>
           wx (nodes h' ! a) =
             (wx (nodes h' ! p) * real (numPoints (nodes h' ! p)) +
              (\<Sum>b\<leftarrow>cs. cx (nodes h' ! b) * real (numPoints (nodes h' ! b))))
             / real (numPoints (nodes h' ! a)) \<and>
           wy (nodes h' ! a) =
             (wy (nodes h' ! p) * real (numPoints (nodes h' ! p)) +
              (\<Sum>b\<leftarrow>cs. cy (nodes h' ! b) * real (numPoints (nodes h' ! b))))
             / real (numPoints (nodes h' ! a))"
proof -
  obtain p cs where p: "p \<in> set points" and ab: "absorbed this z t h' a p cs"
    using cluster_shape[OF assms] by blast
  have "same_fields (nodes h' ! a) (aggregate h' p cs)" using ab by (simp add: absorbed_def)
  then have "children (nodes h' ! a) = Some cs \<and>
           wx (nodes h' ! a) =
             (wx (nodes h' ! p) * real (numPoints (nodes h' ! p)) +
              (\<Sum>b\<leftarrow>cs. cx (nodes h' ! b) * real (numPoints (nodes h' ! b))))
             / real (numPoints (nodes h' ! a)) \<and>
           wy (nodes h' ! a) =
             (wy (nodes h' ! p) * real (numPoints (nodes h' ! p)) +
              (\<Sum>b\<leftarrow>cs. cy (nodes h' ! b) * real (numPoints (nodes h' ! b))))
             / real (numPoints (nodes h' ! a))"
    by (simp add: same_fields_def aggregate_def Let_def)
  then show ?thesis using p by blast
qed


text \<open>
  C1. The code adds \<open>point.wx * numPoints\<close> for the claiming node and \<open>b.x * b.numPoints\<close>
  for a candidate: a candidate contributes its anchor, not its weighted center. In the run
  below the features at longitudes 0 and 9 are merged at zoom 1 into node 3 (anchor 1/2,
  weighted center 41/80); at zoom 0 the feature at -18 (node 0) absorbs node 3, and the
  aggregate, node 4, gets \<open>wx = (9/20 + 1/2 * 2) / 3 = 29/60\<close>, where the average of the
  weighted centers is \<open>(9/20 + 41/80 * 2) / 3 = 59/120\<close>.
\<close>
theorem weighted_center_uses_anchor:
  "result_trees (load (SuperCluster (small_options 1)) empty_store [pt (- 18), pt 0, pt 9])
     = [[4], [0, 3], [0, 1, 2]] \<and>
   map (\<lambda>n. (cx n, wx n, numPoints n, children n))
     (result_nodes (load (SuperCluster (small_options 1)) empty_store [pt (- 18), pt 0, pt 9]))
     = [(9 / 20, 9 / 20, 1, None), (1 / 2, 1 / 2, 1, None), (21 / 40, 21 / 40, 1, None),
        (1 / 2, 41 / 80, 2, Some [2]), (9 / 20, 29 / 60, 3, Some [3])] \<and>
   (9 / 20 * 1 + 41 / 80 * 2) / 3 \<noteq> (29 / 60 :: real)"
  by (simp add: run_simps)

section \<open>getClusters\<close>

lemma loaded_run:
  "load (SuperCluster (small_options 1)) empty_store [pt (- 18), pt 0, pt 9] =
     Inr (loaded_this, loaded_store)"
  by (simp add: loaded_this_def loaded_store_def run_simps)

lemma clamp_zoom_cases:
  assumes "minZoom os \<le> maxZoom os + 1"
  shows "clamp_zoom os zm =
           (if zm \<le> of_int (minZoom os) then of_int (minZoom os)
            else if of_int (maxZoom os + 1) \<le> zm then of_int (maxZoom os + 1) else zm)"
proof -
  have "real_of_int (minZoom os) \<le> of_int (maxZoom os + 1)" using assms by (simp only: of_int_le_iff)
  then show ?thesis unfolding clamp_zoom_def by (simp add: max_def min_def del: of_int_add)
qed

lemma clamp_zoom_idem:
  assumes "minZoom os \<le> maxZoom os + 1"
  shows "clamp_zoom os (clamp_zoom os zm) = clamp_zoom os zm"
  using assms by (simp add: clamp_zoom_def max_def min_def)

lemma clamp_zoom_range:
  assumes "minZoom os \<le> maxZoom os + 1"
  shows "of_int (minZoom os) \<le> clamp_zoom os zm" and "clamp_zoom os zm \<le> of_int (maxZoom os + 1)"
  using assms by (simp_all add: clamp_zoom_def max_def min_def)

lemma getClusters_eq:
  "getClusters this h (b0, b1, b2, b3) zm =
     (case trees_index (trees this) (clamp_zoom (opts this) zm) of
        None \<Rightarrow> Inl TypeError
      | Some t \<Rightarrow>
          Inr (map (\<lambda>c. getCluster (nodes h ! c))
                 (rbush_search h t (lngX b0, latY b3, lngX b2, latY b1))))"
  by (simp add: getClusters_def clamp_zoom_def Let_def)

lemma trees_index_clamped:
  assumes "0 \<le> minZoom os" and "minZoom os \<le> maxZoom os + 1"
    and "int (length ts) = maxZoom os + 2"
  shows "trees_index ts (clamp_zoom os zm) =
           (if of_int \<lfloor>clamp_zoom os zm\<rfloor> = clamp_zoom os zm
            then Some (ts ! nat \<lfloor>clamp_zoom os zm\<rfloor>) else None)"
proof -
  let ?c = "clamp_zoom os zm"
  have "0 \<le> ?c" using clamp_zoom_range(1)[OF assms(2), of zm] assms(1) by simp
  then have 1: "0 \<le> \<lfloor>?c\<rfloor>" by simp
  have "?c < of_int (maxZoom os + 2)" using clamp_zoom_range(2)[OF assms(2), of zm] by simp
  then have 2: "\<lfloor>?c\<rfloor> < int (length ts)" unfolding assms(3) by (simp only: floor_less_iff)
  show ?thesis using 1 2 by (simp add: trees_index_def tree_at_def del: of_int_floor_cancel)
qed

text \<open>
  C8, amended. On an instance whose options satisfy \<open>0 \<le> minZoom \<le> maxZoom + 1\<close> and whose
  array of trees is the one the constructor made (\<open>load\<close> keeps its length), \<open>getClusters\<close>
  clamps the zoom to \<open>[minZoom, maxZoom + 1]\<close> and, when the clamped zoom is a whole number,
  searches the tree of that tier, \<open>trees ! clamped zoom\<close>, and returns its nodes in the
  projected box; otherwise it fails. The call with the clamped zoom returns the same. The
  clamped zoom is a whole number for every zoom at or below \<open>minZoom\<close>, for every zoom at or
  above \<open>maxZoom + 1\<close>, whole or not, and for every whole zoom; a zoom strictly between
  \<open>minZoom\<close> and \<open>maxZoom + 1\<close> that is not a whole number fails.
\<close>

theorem getClusters_clamps:
  assumes "0 \<le> minZoom (opts this)" and "minZoom (opts this) \<le> maxZoom (opts this) + 1"
    and "int (length (trees this)) = maxZoom (opts this) + 2"
  shows "getClusters this h (b0, b1, b2, b3) zm =
           (if of_int \<lfloor>clamp_zoom (opts this) zm\<rfloor> = clamp_zoom (opts this) zm
            then Inr (map (\<lambda>c. getCluster (nodes h ! c))
                       (rbush_search h (trees this ! nat \<lfloor>clamp_zoom (opts this) zm\<rfloor>)
                          (lngX b0, latY b3, lngX b2, latY b1)))
            else Inl TypeError) \<and>
         getClusters this h (b0, b1, b2, b3) (clamp_zoom (opts this) zm) =
           getClusters this h (b0, b1, b2, b3) zm \<and>
         (zm \<le> of_int (minZoom (opts this)) \<or> of_int (maxZoom (opts this) + 1) \<le> zm \<or>
          of_int \<lfloor>zm\<rfloor> = zm \<longrightarrow>
            of_int \<lfloor>clamp_zoom (opts this) zm\<rfloor> = clamp_zoom (opts this) zm) \<and>
         (of_int (minZoom (opts this)) < zm \<and> zm < of_int (maxZoom (opts this) + 1) \<and>
          of_int \<lfloor>zm\<rfloor> \<noteq> zm \<longrightarrow>
            getClusters this h (b0, b1, b2, b3) zm = Inl TypeError)"
proof (intro conjI)
  show "of_int (minZoom (opts this)) < zm \<and> zm < of_int (maxZoom (opts this) + 1) \<and>
          of_int \<lfloor>zm\<rfloor> \<noteq> zm \<longrightarrow>
            getClusters this h (b0, b1, b2, b3) zm = Inl TypeError"
  proof
    assume a: "of_int (minZoom (opts this)) < zm \<and> zm < of_int (maxZoom (opts this) + 1) \<and>
          of_int \<lfloor>zm\<rfloor> \<noteq> zm"
    then have "clamp_zoom (opts this) zm = zm"
      unfolding clamp_zoom_cases[OF assms(2)] by (simp del: of_int_add)
    then show "getClusters this h (b0, b1, b2, b3) zm = Inl TypeError"
      unfolding getClusters_eq trees_index_clamped[OF assms] using a
      by (simp del: of_int_floor_cancel)
  qed
  show "getClusters this h (b0, b1, b2, b3) zm =
           (if of_int \<lfloor>clamp_zoom (opts this) zm\<rfloor> = clamp_zoom (opts this) zm
            then Inr (map (\<lambda>c. getCluster (nodes h ! c))
                       (rbush_search h (trees this ! nat \<lfloor>clamp_zoom (opts this) zm\<rfloor>)
                          (lngX b0, latY b3, lngX b2, latY b1)))
            else Inl TypeError)"
    unfolding getClusters_eq trees_index_clamped[OF assms] by simp
  show "getClusters this h (b0, b1, b2, b3) (clamp_zoom (opts this) zm) =
           getClusters this h (b0, b1, b2, b3) zm"
    unfolding getClusters_eq clamp_zoom_idem[OF assms(2)] by simp
  show "zm \<le> of_int (minZoom (opts this)) \<or> of_int (maxZoom (opts this) + 1) \<le> zm \<or>
          of_int \<lfloor>zm\<rfloor> = zm \<longrightarrow>
            of_int \<lfloor>clamp_zoom (opts this) zm\<rfloor> = clamp_zoom (opts this) zm"
  proof
    assume a: "zm \<le> of_int (minZoom (opts this)) \<or> of_int (maxZoom (opts this) + 1) \<le> zm \<or>
          of_int \<lfloor>zm\<rfloor> = zm"
    note c = clamp_zoom_cases[OF assms(2), of zm]
    show "of_int \<lfloor>clamp_zoom (opts this) zm\<rfloor> = clamp_zoom (opts this) zm"
    proof (cases "zm \<le> of_int (minZoom (opts this))")
      case True
      then show ?thesis unfolding c by simp
    next
      case False
      note lo = this
      show ?thesis
      proof (cases "of_int (maxZoom (opts this) + 1) \<le> zm")
        case True
        then show ?thesis unfolding c using lo by (simp del: of_int_add)
      next
        case False
        then have "of_int \<lfloor>zm\<rfloor> = zm" using a lo by blast
        then show ?thesis unfolding c using lo False by (simp del: of_int_floor_cancel)
      qed
    qed
  qed
qed

lemma latY_poles: "latY 90 = 0" "latY (- 90) = 1"
  by (simp_all add: latY_def)

theorem getClusters_clamps_witness:
  "load (SuperCluster (small_options 1)) empty_store [pt (- 18), pt 0, pt 9] =
     Inr (loaded_this, loaded_store) \<and>
   clamp_zoom (opts loaded_this) (15 / 2) = 2 \<and>
   getClusters loaded_this loaded_store (- 180, - 90, 180, 90) (15 / 2) =
     Inr [Original (pt (- 18)), Original (pt 0), Original (pt 9)] \<and>
   getClusters loaded_this loaded_store (- 180, - 90, 180, 90) 2 =
     Inr [Original (pt (- 18)), Original (pt 0), Original (pt 9)] \<and>
   clamp_zoom (opts loaded_this) (- 16 / 5) = 0 \<and>
   getClusters loaded_this loaded_store (- 180, - 90, 180, 90) (- 16 / 5) =
     Inr [ClusterFeature 3 (xLng (29 / 60)) (yLat (1 / 2))] \<and>
   getClusters loaded_this loaded_store (- 180, - 90, 180, 90) (1 / 2) = Inl TypeError"
proof -
  have a: "0 \<le> minZoom (opts loaded_this)" "minZoom (opts loaded_this) \<le> maxZoom (opts loaded_this) + 1"
    "int (length (trees loaded_this)) = maxZoom (opts loaded_this) + 2"
    by (simp_all add: loaded_this_def small_options_def)
  have c: "clamp_zoom (opts loaded_this) (15 / 2) = 2" "clamp_zoom (opts loaded_this) (- 16 / 5) = 0"
    "clamp_zoom (opts loaded_this) 2 = 2"
    by (simp_all add: clamp_zoom_def loaded_this_def small_options_def)
  have f: "\<lfloor>1 / 2 :: real\<rfloor> = 0" by (rule floor_unique) simp_all
  have h: "real_of_int (minZoom (opts loaded_this)) < 1 / 2 \<and>
           (1 / 2 :: real) < real_of_int (maxZoom (opts loaded_this) + 1) \<and>
           real_of_int \<lfloor>1 / 2 :: real\<rfloor> \<noteq> 1 / 2"
    unfolding f by (simp add: loaded_this_def small_options_def)
  note t1 = getClusters_clamps[OF a, of loaded_store "- 180" "- 90" 180 90 "15 / 2"]
  note t2 = getClusters_clamps[OF a, of loaded_store "- 180" "- 90" 180 90 "- 16 / 5"]
  note t3 = getClusters_clamps[OF a, of loaded_store "- 180" "- 90" 180 90 "1 / 2"]
  have 1: "getClusters loaded_this loaded_store (- 180, - 90, 180, 90) (15 / 2) =
             Inr [Original (pt (- 18)), Original (pt 0), Original (pt 9)]"
    using t1 unfolding c
    by (simp add: loaded_this_def loaded_store_def rbush_search_def in_bbox_def getCluster_def
          createCluster_def lngX_def latY_poles eval_nat_numeral)
  have 2: "getClusters loaded_this loaded_store (- 180, - 90, 180, 90) 2 =
             Inr [Original (pt (- 18)), Original (pt 0), Original (pt 9)]"
    using t1 1 unfolding c by simp
  have 3: "getClusters loaded_this loaded_store (- 180, - 90, 180, 90) (- 16 / 5) =
             Inr [ClusterFeature 3 (xLng (29 / 60)) (yLat (1 / 2))]"
    using t2 unfolding c
    by (simp add: loaded_this_def loaded_store_def rbush_search_def in_bbox_def getCluster_def
          createCluster_def lngX_def latY_poles eval_nat_numeral)
  have 4: "getClusters loaded_this loaded_store (- 180, - 90, 180, 90) (1 / 2) = Inl TypeError"
    using t3 h by blast
  show ?thesis using loaded_run c 1 2 3 4 by simp
qed

text \<open>
  The claim C8 as it is written fails: the clamped zoom indexes the array of trees as it
  is, so a zoom of 2.5 reads \<open>this.trees[2.5]\<close>, which is \<open>undefined\<close>, on a new instance
  with the default options; and so does a zoom of 0.5 on the instance that \<open>load\<close> of three
  features returns.
\<close>

theorem getClusters_fractional_zoom_counterexample:
  "getClusters (SuperCluster default_options) empty_store (- 180, - 85, 180, 85) (5 / 2) =
     Inl TypeError \<and>
   load (SuperCluster (small_options 1)) empty_store [pt (- 18), pt 0, pt 9] =
     Inr (loaded_this, loaded_store) \<and>
   getClusters loaded_this loaded_store (- 180, - 90, 180, 90) (1 / 2) = Inl TypeError"
proof -
  have "\<lfloor>5 / 2 :: real\<rfloor> = 2" by (rule floor_unique) simp_all
  then have "trees_index (trees (SuperCluster default_options)) (5 / 2) = None"
    unfolding trees_index_def by (simp del: of_int_floor_cancel)
  then have 1: "getClusters (SuperCluster default_options) empty_store (- 180, - 85, 180, 85) (5 / 2) =
     Inl TypeError"
    by (simp add: getClusters_def SuperCluster_def default_options_def)
  have "\<lfloor>1 / 2 :: real\<rfloor> = 0" by (rule floor_unique) simp_all
  then have "trees_index (trees loaded_this) (1 / 2) = None"
    unfolding trees_index_def by (simp del: of_int_floor_cancel)
  then have 2: "getClusters loaded_this loaded_store (- 180, - 90, 180, 90) (1 / 2) = Inl TypeError"
    by (simp add: getClusters_def loaded_this_def small_options_def)
  show ?thesis using 1 2 loaded_run by simp
qed

section \<open>Bounds on \<open>pi\<close>, \<open>exp\<close> and \<open>cos\<close>\<close>

lemma arctan_leibniz:
  fixes x :: real
  assumes "0 \<le> x" and "x \<le> 1"
  shows "(\<Sum>i<2 * n. (- 1) ^ i * (1 / real (i * 2 + 1) * x ^ (i * 2 + 1))) \<le> arctan x"
    and "arctan x \<le> (\<Sum>i<2 * n + 1. (- 1) ^ i * (1 / real (i * 2 + 1) * x ^ (i * 2 + 1)))"
proof -
  let ?a = "\<lambda>n. 1 / real (n * 2 + 1) * x ^ (n * 2 + 1)"
  have z: "?a \<longlonglongrightarrow> 0" by (rule zeroseq_arctan_series) (use assms in simp)
  have p: "\<And>n. 0 \<le> ?a n" using assms by simp
  have m: "\<And>n. ?a (Suc n) \<le> ?a n"
  proof -
    fix n
    have "x ^ (Suc n * 2 + 1) \<le> x ^ (n * 2 + 1)"
      using assms by (intro power_decreasing) simp_all
    moreover have "1 / real (Suc n * 2 + 1) \<le> 1 / real (n * 2 + 1)"
      by (intro divide_left_mono) simp_all
    ultimately show "?a (Suc n) \<le> ?a n"
      using assms by (intro mult_mono) simp_all
  qed
  have s: "arctan x = (\<Sum>k. (- 1) ^ k * ?a k)"
    by (rule arctan_series) (use assms in simp)
  show "(\<Sum>i<2 * n. (- 1) ^ i * ?a i) \<le> arctan x"
    unfolding s using summable_Leibniz'(2)[of ?a n, OF z p m] by simp
  show "arctan x \<le> (\<Sum>i<2 * n + 1. (- 1) ^ i * ?a i)"
    unfolding s using summable_Leibniz'(4)[of ?a n, OF z p m] by simp
qed

lemma pi_lower: "314159 / 100000 \<le> pi"
proof -
  have 1: "1/5 - 1/375 + 1/15625 - 1/546875 \<le> arctan (1/5 :: real)"
    using arctan_leibniz(1)[of "1/5" 2] by (simp add: eval_nat_numeral)
  have 2: "arctan (1/239 :: real) \<le> 1/239"
    using arctan_leibniz(2)[of "1/239" 0] by simp
  have "pi / 4 = 4 * arctan (1/5) - arctan (1/239)" by (rule machin)
  then show ?thesis using 1 2 by linarith
qed

lemma exp_lower_Taylor4:
  fixes x :: real
  assumes "0 \<le> x"
  shows "1 + x + x ^ 2 / 2 + x ^ 3 / 6 + x ^ 4 / 24 \<le> exp x"
proof -
  obtain t where "exp x = (\<Sum>m<5. (x ^ m) / fact m) + (exp t / fact 5) * x ^ 5"
    using Maclaurin_exp_le[of x 5] by blast
  moreover have "0 \<le> (exp t / fact 5) * x ^ 5" using assms by simp
  ultimately show ?thesis by (simp add: eval_nat_numeral)
qed

lemma exp_minus_lower_Taylor5:
  fixes x :: real
  shows "1 - x + x ^ 2 / 2 - x ^ 3 / 6 + x ^ 4 / 24 - x ^ 5 / 120 \<le> exp (- x)"
proof -
  obtain t where "exp (- x) = (\<Sum>m<6. ((- x) ^ m) / fact m) + (exp t / fact 6) * (- x) ^ 6"
    using Maclaurin_exp_le[of "- x" 6] by blast
  moreover have "0 \<le> (exp t / fact 6) * (- x) ^ 6" by simp
  ultimately show ?thesis by (simp add: eval_nat_numeral)
qed

lemma cos_upper_Taylor4:
  fixes x :: real
  assumes "0 < x" and "x \<le> pi"
  shows "cos x \<le> 1 - x ^ 2 / 2 + x ^ 4 / 24"
proof -
  obtain t where t: "0 < t" "t < x"
    and c: "cos x = (\<Sum>m<5. cos_coeff m * x ^ m) + (cos (t + 1/2 * real 5 * pi) / fact 5) * x ^ 5"
    using Maclaurin_cos_expansion2[OF assms(1), of 5] by auto
  have "cos (t + 1/2 * real 5 * pi) = cos (t + pi / 2 + 2 * pi)" by (simp add: algebra_simps)
  also have "\<dots> = cos (t + pi / 2)" by (rule cos_periodic)
  also have "\<dots> = - sin t" by (simp add: cos_add)
  finally have r: "cos (t + 1/2 * real 5 * pi) = - sin t" .
  have "0 \<le> sin t" using t assms(2) by (intro sin_ge_zero) simp_all
  then have "(cos (t + 1/2 * real 5 * pi) / fact 5) * x ^ 5 \<le> 0"
    unfolding r using assms(1) by (simp add: mult_nonneg_nonpos2 divide_nonpos_pos zero_le_mult_iff)
  moreover have "(\<Sum>m<5. cos_coeff m * x ^ m) =
      cos_coeff 0 * x ^ 0 + cos_coeff 1 * x ^ 1 + cos_coeff 2 * x ^ 2 + cos_coeff 3 * x ^ 3 +
      cos_coeff 4 * x ^ 4"
    by (simp add: numeral_eq_Suc)
  moreover have "cos_coeff 0 = 1" "cos_coeff 1 = 0" "cos_coeff 2 = - 1 / 2" "cos_coeff 3 = 0"
    "cos_coeff 4 = 1 / 24"
    by (simp_all add: cos_coeff_def fact_numeral)
  ultimately show ?thesis using c by simp
qed

lemma pi_upper2: "pi \<le> 31416 / 10000"
proof -
  have 1: "arctan (1/5 :: real) \<le> 1/5 - 1/375 + 1/15625 - 1/546875 + 1/17578125"
    using arctan_leibniz(2)[of "1/5" 2] by (simp add: eval_nat_numeral)
  have 2: "1/239 - 1/40955757 \<le> arctan (1/239 :: real)"
    using arctan_leibniz(1)[of "1/239" 1] by (simp add: eval_nat_numeral)
  have "pi / 4 = 4 * arctan (1/5) - arctan (1/239)" by (rule machin)
  then show ?thesis using 1 2 by linarith
qed

lemma exp_2pi_lower2: "53548 / 100 \<le> exp (2 * pi)"
proof -
  let ?x = "314159 / 3200000 :: real"
  have "1 + ?x + ?x ^ 2 / 2 + ?x ^ 3 / 6 + ?x ^ 4 / 24 \<le> exp ?x"
    by (rule exp_lower_Taylor4) simp
  then have a0: "172368031 / 156250000 \<le> exp ?x" by (simp add: power_divide)
  have "(172368031 / 156250000 :: real) ^ 64 \<le> exp ?x ^ 64"
    by (rule power_mono[OF a0]) simp
  moreover have "exp ?x ^ 64 = exp (of_nat 64 * ?x)" by (rule exp_of_nat_mult[symmetric])
  moreover have "(53548 / 100 :: real) \<le> (172368031 / 156250000) ^ 64" by (simp add: power_divide)
  ultimately have "53548 / 100 \<le> exp (314159 / 50000 :: real)" by simp
  moreover have "exp (314159 / 50000 :: real) \<le> exp (2 * pi)"
    using pi_lower by simp
  ultimately show ?thesis by linarith
qed

lemma exp_2pi_upper2: "exp (2 * pi) \<le> 53555 / 100"
proof -
  let ?x = "31416 / 160000 :: real"
  let ?p = "1 - ?x + ?x ^ 2 / 2 - ?x ^ 3 / 6 + ?x ^ 4 / 24 - ?x ^ 5 / 120"
  have p: "?p \<le> exp (- ?x)" by (rule exp_minus_lower_Taylor5)
  have q: "8217245033 / 10000000000 \<le> ?p" by (simp add: power_divide)
  have "exp ?x = 1 / exp (- ?x)" by (simp add: exp_minus inverse_eq_divide)
  also have "\<dots> \<le> 1 / (8217245033 / 10000000000)"
    by (rule divide_left_mono) (use p q in simp_all)
  finally have b0: "exp ?x \<le> 10000000000 / 8217245033" by simp
  have "exp (2 * pi) \<le> exp (31416 / 5000 :: real)" using pi_upper2 by simp
  also have "exp (31416 / 5000 :: real) = exp (of_nat 32 * ?x)" by simp
  also have "\<dots> = exp ?x ^ 32" by (rule exp_of_nat_mult)
  also have "\<dots> \<le> (10000000000 / 8217245033) ^ 32"
    by (rule power_mono[OF b0]) simp
  also have "\<dots> \<le> 53555 / 100" by (simp add: power_divide)
  finally show ?thesis .
qed

lemma cos_lower_Taylor6:
  fixes x :: real
  assumes "0 < x" and "x \<le> pi"
  shows "1 - x ^ 2 / 2 + x ^ 4 / 24 - x ^ 6 / 720 \<le> cos x"
proof -
  obtain t where t: "0 < t" "t < x"
    and c: "cos x = (\<Sum>m<7. cos_coeff m * x ^ m) + (cos (t + 1/2 * real 7 * pi) / fact 7) * x ^ 7"
    using Maclaurin_cos_expansion2[OF assms(1), of 7] by auto
  have "cos (t + 1/2 * real 7 * pi) = cos (t - pi / 2 + 2 * pi + 2 * pi)" by (simp add: algebra_simps)
  also have "\<dots> = cos (t - pi / 2 + 2 * pi)" by (rule cos_periodic)
  also have "\<dots> = cos (t - pi / 2)" by (rule cos_periodic)
  also have "\<dots> = sin t" by (simp add: cos_diff)
  finally have r: "cos (t + 1/2 * real 7 * pi) = sin t" .
  have "0 \<le> sin t" using t assms(2) by (intro sin_ge_zero) simp_all
  then have "0 \<le> (cos (t + 1/2 * real 7 * pi) / fact 7) * x ^ 7"
    unfolding r using assms(1) by simp
  moreover have "(\<Sum>m<7. cos_coeff m * x ^ m) =
      cos_coeff 0 * x ^ 0 + cos_coeff 1 * x ^ 1 + cos_coeff 2 * x ^ 2 + cos_coeff 3 * x ^ 3 +
      cos_coeff 4 * x ^ 4 + cos_coeff 5 * x ^ 5 + cos_coeff 6 * x ^ 6"
    by (simp add: numeral_eq_Suc)
  moreover have "cos_coeff 0 = 1" "cos_coeff 1 = 0" "cos_coeff 2 = - 1 / 2" "cos_coeff 3 = 0"
    "cos_coeff 4 = 1 / 24" "cos_coeff 5 = 0" "cos_coeff 6 = - 1 / 720"
    by (simp_all add: cos_coeff_def fact_numeral)
  ultimately show ?thesis using c by simp
qed

lemma tanh_eq: "(exp (2 * pi) - 1) / (exp (2 * pi) + 1) = 1 - 2 / (exp (2 * pi) + 1)"
proof -
  have "exp (2 * pi) + 1 \<noteq> 0" using exp_gt_zero[of "2 * pi"] by linarith
  then show ?thesis by (simp add: field_simps)
qed

lemma cos_4949_lt_tanh:
  "cos (4949 / 180000 * pi) < (exp (2 * pi) - 1) / (exp (2 * pi) + 1)"
proof -
  let ?d = "1554772891 / 18000000000 :: real"
  have d: "?d \<le> 4949 / 180000 * pi" using pi_lower by simp
  have "cos (4949 / 180000 * pi) \<le> cos ?d"
    by (rule cos_monotone_0_pi_le) (use d pi_gt_zero in simp_all)
  also have "cos ?d \<le> 1 - ?d ^ 2 / 2 + ?d ^ 4 / 24"
    by (rule cos_upper_Taylor4) (use d pi_gt_zero in simp_all)
  also have "1 - ?d ^ 2 / 2 + ?d ^ 4 / 24 < 1 - 2 / (53548 / 100 + 1 :: real)"
    by (simp add: power_divide)
  also have "1 - 2 / (53548 / 100 + 1 :: real) \<le> 1 - 2 / (exp (2 * pi) + 1)"
  proof -
    have "2 / (exp (2 * pi) + 1) \<le> 2 / (53548 / 100 + 1 :: real)"
      by (rule divide_left_mono) (use exp_2pi_lower2 in simp_all)
    then show ?thesis by simp
  qed
  finally show ?thesis unfolding tanh_eq .
qed

lemma tanh_lt_cos_4948:
  "(exp (2 * pi) - 1) / (exp (2 * pi) + 1) < cos (4948 / 180000 * pi)"
proof -
  let ?d = "1619233 / 18750000 :: real"
  have d: "4948 / 180000 * pi \<le> ?d" using pi_upper2 by simp
  have dp: "?d \<le> pi" using pi_lower by simp
  have "1 - 2 / (exp (2 * pi) + 1) \<le> 1 - 2 / (53555 / 100 + 1 :: real)"
  proof -
    have "0 < exp (2 * pi) + 1" using exp_gt_zero[of "2 * pi"] by linarith
    then have "2 / (53555 / 100 + 1 :: real) \<le> 2 / (exp (2 * pi) + 1)"
      using exp_2pi_upper2 by (intro frac_le) simp_all
    then show ?thesis by simp
  qed
  also have "\<dots> < 1 - ?d ^ 2 / 2 + ?d ^ 4 / 24 - ?d ^ 6 / 720" by (simp add: power_divide)
  also have "\<dots> \<le> cos ?d" by (rule cos_lower_Taylor6) (use dp in simp_all)
  also have "\<dots> \<le> cos (4948 / 180000 * pi)"
    by (rule cos_monotone_0_pi_le) (use d dp pi_gt_zero in simp_all)
  finally show ?thesis unfolding tanh_eq .
qed

section \<open>Rounding to a double\<close>

text \<open>The exponent of \<open>x\<close> is the \<open>e\<close> with \<open>2 powi e \<le> \<bar>x\<bar> < 2 powi (e + 1)\<close>.\<close>

lemma expo_eq:
  assumes "2 powi e \<le> \<bar>x\<bar>" and "\<bar>x\<bar> < 2 powi (e + 1)"
  shows "expo x = e"
proof -
  have "(0 :: real) < 2 powi e" by simp
  then have p: "0 < \<bar>x\<bar>" using assms(1) by linarith
  have "real_of_int e \<le> log 2 \<bar>x\<bar>"
    using assms(1) p by (simp add: le_log_iff powr_real_of_int')
  moreover have "log 2 \<bar>x\<bar> < real_of_int (e + 1)"
    using assms(2) p by (simp add: log_less_iff powr_real_of_int' del: of_int_add)
  ultimately show ?thesis unfolding expo_def by (intro floor_unique) simp_all
qed

lemma expo_bounds:
  assumes "x \<noteq> 0"
  shows "2 powi (expo x) \<le> \<bar>x\<bar>" and "\<bar>x\<bar> < 2 powi (expo x + 1)"
proof -
  have p: "0 < \<bar>x\<bar>" using assms by simp
  have "real_of_int (expo x) \<le> log 2 \<bar>x\<bar>" unfolding expo_def by simp
  then show "2 powi (expo x) \<le> \<bar>x\<bar>" using p by (simp add: le_log_iff powr_real_of_int')
  have "log 2 \<bar>x\<bar> < real_of_int (expo x + 1)" unfolding expo_def by simp
  then show "\<bar>x\<bar> < 2 powi (expo x + 1)" using p by (simp add: log_less_iff powr_real_of_int' del: of_int_add)
qed

lemma rne_err: "\<bar>of_int (rne y) - y\<bar> \<le> 1 / 2"
proof -
  define n where "n = \<lfloor>y\<rfloor>"
  have a: "of_int n \<le> y" "y < of_int n + 1" unfolding n_def by linarith+
  show ?thesis unfolding rne_def n_def[symmetric] using a by (auto simp: abs_if)
qed

text \<open>
  How \<open>fl\<close> is evaluated: for a normal \<open>x\<close> with exponent \<open>e\<close>, round \<open>x / 2 powi (e - 52)\<close>
  to the whole number \<open>m\<close>; the result is \<open>m * 2 powi (e - 52)\<close>.
\<close>

lemma fl_eval:
  assumes "2 powi e \<le> \<bar>x\<bar>" and "\<bar>x\<bar> < 2 powi (e + 1)" and "- 1022 \<le> e"
    and "rne (x / 2 powi (e - 52)) = m" and "\<bar>of_int m * 2 powi (e - 52)\<bar> < (2 :: real) ^ 1024"
  shows "fl x = Some (of_int m * 2 powi (e - 52))"
proof -
  have "(0 :: real) < 2 powi e" by simp
  then have "0 < \<bar>x\<bar>" using assms(1) by linarith
  then have x: "x \<noteq> 0" by simp
  have e: "expo x = e" by (rule expo_eq[OF assms(1,2)])
  have u: "ulp x = 2 powi (e - 52)" unfolding ulp_def e using assms(3) by (simp add: max_def)
  show ?thesis unfolding fl_def u Let_def assms(4) using x assms(5) by simp
qed

text \<open>The four operations of \<open>xLng(lngX(10))\<close>, one after the other.\<close>

lemma roundtrip_lng_10: "roundtrip_lng 10 = Some (10 + 1 / 2 ^ 48)"
proof -
  have 1: "fl (10 / 360) = Some (8006399337547548 / 2 ^ 58)"
    by (rule fl_eval[of "- 6" _ 8006399337547548, THEN trans])
       (simp_all add: power_int_minus rne_def)
  have 2: "fl (8006399337547548 / 2 ^ 58 + 0.5) = Some (4753799606668857 / 2 ^ 53)"
    by (rule fl_eval[of "- 1" _ 4753799606668857, THEN trans])
       (simp_all add: power_int_minus rne_def)
  have 3: "fl (4753799606668857 / 2 ^ 53 - 0.5) = Some (250199979298361 / 2 ^ 53)"
    by (rule fl_eval[of "- 6" _ 8006399337547552, THEN trans])
       (simp_all add: power_int_minus rne_def)
  have 4: "fl (250199979298361 / 2 ^ 53 * 360) = Some (10 + 1 / 2 ^ 48)"
    by (rule fl_eval[of 3 _ 5629499534213122, THEN trans])
       (simp_all add: power_int_minus rne_def)
  show ?thesis
    unfolding roundtrip_lng_def lngX_double_def xLng_double_def 1 2 3 4 bind.simps ..
qed


text \<open>
  One operation is off by at most half an ulp, which is at most \<open>\<bar>x\<bar> / 2 ^ 53\<close> for a normal
  \<open>x\<close> and \<open>1 / 2 ^ 1075\<close> for a subnormal one, and its result is finite when \<open>x\<close> is at most
  \<open>2 ^ 1023\<close> in size.
\<close>

lemma ulp_pos: "0 < ulp x"
  by (simp add: ulp_def)

lemma ulp_le:
  assumes "x \<noteq> 0"
  shows "ulp x / 2 \<le> \<bar>x\<bar> / 2 ^ 53 + 1 / 2 ^ 1075"
proof (cases "- 1022 \<le> expo x")
  case True
  then have "ulp x = 2 powi (expo x - 52)" by (simp add: ulp_def max_def)
  also have "\<dots> = 2 powi (expo x) / 2 ^ 52" by (simp add: power_int_diff)
  also have "\<dots> \<le> \<bar>x\<bar> / 2 ^ 52" using expo_bounds(1)[OF assms] by (simp add: divide_right_mono)
  finally have "ulp x / 2 \<le> \<bar>x\<bar> / 2 ^ 53" by simp
  moreover have "(0 :: real) \<le> 1 / 2 ^ 1075" by simp
  ultimately show ?thesis by linarith
next
  case False
  then have "ulp x = 2 powi (- 1074)" by (simp add: ulp_def max_def)
  then have "ulp x / 2 = 1 / 2 ^ 1075" by (simp add: power_int_minus field_simps)
  then show ?thesis by simp
qed

lemma fl_err:
  assumes "\<bar>x\<bar> \<le> 2 ^ 1023"
  shows "\<exists>y. fl x = Some y \<and> \<bar>y - x\<bar> \<le> \<bar>x\<bar> / 2 ^ 53 + 1 / 2 ^ 1075"
proof (cases "x = 0")
  case True
  then show ?thesis by (simp add: fl_def)
next
  case False
  define r where "r = of_int (rne (x / ulp x)) * ulp x"
  have "r - x = (of_int (rne (x / ulp x)) - x / ulp x) * ulp x"
    using ulp_pos[of x] by (simp add: r_def field_simps)
  then have "\<bar>r - x\<bar> = \<bar>of_int (rne (x / ulp x)) - x / ulp x\<bar> * ulp x"
    using ulp_pos[of x] by (simp add: abs_mult)
  also have "\<dots> \<le> 1 / 2 * ulp x"
    by (rule mult_right_mono[OF rne_err]) (use ulp_pos[of x] in simp)
  finally have e: "\<bar>r - x\<bar> \<le> \<bar>x\<bar> / 2 ^ 53 + 1 / 2 ^ 1075" using ulp_le[OF False] by simp
  have "\<bar>x\<bar> / 2 ^ 53 \<le> (2 :: real) ^ 1023 / 2 ^ 53" using assms by (simp add: divide_right_mono)
  then have "\<bar>r\<bar> < 2 ^ 1024" using e assms by simp
  then have "fl x = Some r" using False by (simp add: fl_def r_def Let_def)
  then show ?thesis using e by simp
qed


lemma fl_err_abs:
  assumes "\<bar>x\<bar> \<le> a" and "a \<le> 2 ^ 1023"
  shows "\<exists>y. fl x = Some y \<and> \<bar>y - x\<bar> \<le> a / 9007199254740992 + 1 / 2 ^ 1075"
proof -
  have "\<bar>x\<bar> \<le> 2 ^ 1023" using assms by linarith
  then obtain y where y: "fl x = Some y" "\<bar>y - x\<bar> \<le> \<bar>x\<bar> / 2 ^ 53 + 1 / 2 ^ 1075"
    using fl_err[of x] by blast
  have "\<bar>x\<bar> / 2 ^ 53 \<le> a / 2 ^ 53" using assms(1) by (simp add: divide_right_mono)
  then have "\<bar>y - x\<bar> \<le> a / 9007199254740992 + 1 / 2 ^ 1075" using y(2) by simp
  then show ?thesis using y(1) by blast
qed

text \<open>The errors of the four operations of \<open>xLng(lngX(l))\<close> add up.\<close>

lemma roundtrip_lng_close:
  assumes "\<bar>l\<bar> \<le> 2 ^ 1000"
  shows "\<exists>r. roundtrip_lng l = Some r \<and> \<bar>r - l\<bar> \<le> (5 * \<bar>l\<bar> + 181) / 2 ^ 53"
proof -
  define \<eta> :: real where "\<eta> = 1 / 2 ^ 1075"
  have \<eta>: "0 \<le> \<eta>" "\<eta> \<le> 1 / 1180591620717411303424" by (simp_all add: \<eta>_def)
  define B :: real where "B = 2 ^ 1000"
  have B: "1 \<le> B" "B * 4096 \<le> 2 ^ 1023" using assms by (simp_all add: B_def)
  define A where "A = \<bar>l\<bar>"
  have A: "0 \<le> A" "A \<le> B" using assms by (simp_all add: A_def B_def)
  have a1: "\<bar>l / 360\<bar> \<le> A / 360" by (simp add: A_def)
  have "A / 360 \<le> 2 ^ 1023" using A B by linarith
  then obtain q where q: "fl (l / 360) = Some q"
    and e1: "\<bar>q - l / 360\<bar> \<le> A / 360 / 9007199254740992 + \<eta>"
    unfolding \<eta>_def using fl_err_abs[OF a1] by blast
  define Q where "Q = A / 360 + A / 3242591731706757120 + \<eta>"
  have bq: "\<bar>q\<bar> \<le> Q" using e1 a1 unfolding Q_def by simp
  have a2: "\<bar>q + 1 / 2\<bar> \<le> Q + 1 / 2" using bq by linarith
  have Q: "Q \<le> 2 * B" unfolding Q_def using A B \<eta> by linarith
  have "Q + 1 / 2 \<le> 2 ^ 1023" using Q B by linarith
  then obtain s where s: "fl (q + 1 / 2) = Some s"
    and e2: "\<bar>s - (q + 1 / 2)\<bar> \<le> (Q + 1 / 2) / 9007199254740992 + \<eta>"
    unfolding \<eta>_def using fl_err_abs[OF a2] by blast
  define S where "S = Q + Q / 9007199254740992 + 1 / 18014398509481984 + \<eta>"
  have a3: "\<bar>s - 1 / 2\<bar> \<le> S" using e2 bq unfolding S_def by (simp add: add_divide_distrib)
  have S: "S \<le> 5 * B" unfolding S_def using Q B \<eta> by linarith
  have "S \<le> 2 ^ 1023" using S B by linarith
  then obtain d where d: "fl (s - 1 / 2) = Some d"
    and e3: "\<bar>d - (s - 1 / 2)\<bar> \<le> S / 9007199254740992 + \<eta>"
    unfolding \<eta>_def using fl_err_abs[OF a3] by blast
  define D where "D = S + S / 9007199254740992 + \<eta>"
  have bd: "\<bar>d\<bar> \<le> D" using e3 a3 unfolding D_def by linarith
  have a4: "\<bar>d * 360\<bar> \<le> D * 360" using bd by simp
  have D: "D \<le> 11 * B" unfolding D_def using S B \<eta> by linarith
  have "D * 360 \<le> 2 ^ 1023" using D B by linarith
  then obtain r where r: "fl (d * 360) = Some r"
    and e4: "\<bar>r - d * 360\<bar> \<le> D * 360 / 9007199254740992 + \<eta>"
    unfolding \<eta>_def using fl_err_abs[OF a4] by blast
  define u1 where "u1 = \<bar>q - l / 360\<bar>"
  define u2 where "u2 = \<bar>s - (q + 1 / 2)\<bar>"
  define u3 where "u3 = \<bar>d - (s - 1 / 2)\<bar>"
  define u4 where "u4 = \<bar>r - d * 360\<bar>"
  define u where "u = \<bar>r - l\<bar>"
  have t: "\<bar>a + 360 * b + 360 * c + 360 * e\<bar> \<le> \<bar>a\<bar> + 360 * \<bar>b\<bar> + 360 * \<bar>c\<bar> + 360 * \<bar>e\<bar>"
    for a b c e :: real by linarith
  have "r - l = (r - d * 360) + 360 * (d - (s - 1 / 2)) + 360 * (s - (q + 1 / 2)) +
                  360 * (q - l / 360)"
    by simp
  then have 1: "u \<le> u4 + 360 * u3 + 360 * u2 + 360 * u1"
    unfolding u_def u1_def u2_def u3_def u4_def
    using t[of "r - d * 360" "d - (s - 1 / 2)" "s - (q + 1 / 2)" "q - l / 360"] by simp
  have f1: "u1 \<le> A / 3242591731706757120 + \<eta>" using e1 unfolding u1_def by simp
  have f2: "u2 \<le> Q / 9007199254740992 + 1 / 18014398509481984 + \<eta>"
    using e2 unfolding u2_def by (simp add: add_divide_distrib)
  have f3: "u3 \<le> S / 9007199254740992 + \<eta>" using e3 unfolding u3_def by simp
  have f4: "u4 \<le> D * 360 / 9007199254740992 + \<eta>" using e4 unfolding u4_def by simp
  have Qb: "Q \<le> A / 359 + 1 / 10000" unfolding Q_def using A \<eta> by linarith
  have Sb: "S \<le> A / 358 + 2 / 10000" unfolding S_def using Qb A \<eta> by linarith
  have Db: "D \<le> A / 357 + 3 / 10000" unfolding D_def using Sb A \<eta> by linarith
  have "u \<le> (5 * A + 181) / 9007199254740992"
    using 1 f1 f2 f3 f4 Qb Sb Db A(1) \<eta> by argo
  then have "\<bar>r - l\<bar> \<le> (5 * \<bar>l\<bar> + 181) / 2 ^ 53" by (simp add: A_def u_def)
  moreover have "roundtrip_lng l = Some r"
    by (simp add: roundtrip_lng_def lngX_double_def xLng_double_def q s d r)
  ultimately show ?thesis by blast
qed

section \<open>The projection round trip\<close>

lemma lat_angle:
  fixes lat :: real
  assumes "a < lat" and "lat < b"
  shows "a * pi / 180 < lat * pi / 180" and "lat * pi / 180 < b * pi / 180"
  using assms pi_gt_zero by (simp_all add: divide_strict_right_mono mult_strict_right_mono)

lemma mercator_arctan:
  assumes "- (pi / 2) < t" and "t < pi / 2"
  shows "arctan (exp (ln ((1 + sin t) / (1 - sin t)) / 2)) = pi / 4 + t / 2"
proof -
  let ?p = "pi / 4 + t / 2"
  have p: "0 < ?p" "?p < pi / 2" using assms by simp_all
  have c: "0 < cos ?p" by (rule cos_gt_zero_pi) (use p in simp_all)
  have s: "0 < sin ?p" by (rule sin_gt_zero) (use p pi_gt_zero in simp_all)
  have tp: "0 < tan ?p" using c s by (simp add: tan_def)
  have "t = 2 * ?p - pi / 2" by simp
  then have "sin t = sin (2 * ?p - pi / 2)" by simp
  also have "\<dots> = - cos (2 * ?p)" by (simp only: sin_diff) simp
  finally have st: "sin t = - cos (2 * ?p)" .
  have 1: "1 + sin t = 2 * (sin ?p)\<^sup>2" unfolding st cos_double_sin by simp
  have 2: "1 - sin t = 2 * (cos ?p)\<^sup>2" unfolding st cos_double_cos by simp
  have "(1 + sin t) / (1 - sin t) = (tan ?p)\<^sup>2"
    unfolding 1 2 tan_def by (simp add: power_divide)
  then have "ln ((1 + sin t) / (1 - sin t)) / 2 = ln (tan ?p)"
    using tp by (simp add: ln_realpow)
  then have "exp (ln ((1 + sin t) / (1 - sin t)) / 2) = tan ?p" using tp by simp
  then show ?thesis using p by (simp add: arctan_tan)
qed

lemma ratio_below:
  fixes s E :: real
  assumes E: "1 < E" and s: "\<bar>s\<bar> < (E - 1) / (E + 1)"
  shows "s < 1 \<and> - 1 < s \<and> (1 + s) / (1 - s) < E \<and> 1 / E < (1 + s) / (1 - s)"
proof -
  have E1: "0 < E + 1" using E by linarith
  have "s < (E - 1) / (E + 1)" "- ((E - 1) / (E + 1)) < s" using s by linarith+
  then have b: "s * (E + 1) < E - 1" "- (E - 1) < s * (E + 1)"
    using E1 by (simp_all add: pos_less_divide_eq pos_divide_less_eq minus_less_iff)
  have b': "s * E + s < E - 1" "- (E - 1) < s * E + s" using b by (simp_all add: algebra_simps)
  have lt1: "s < 1"
  proof (rule ccontr)
    assume n: "\<not> s < 1"
    then have "1 * E \<le> s * E" using E by (intro mult_right_mono) simp_all
    then show False using b'(1) n by linarith
  qed
  have gt1: "- 1 < s"
  proof (rule ccontr)
    assume n: "\<not> - 1 < s"
    then have "s * E \<le> (- 1) * E" using E by (intro mult_right_mono) simp_all
    then show False using b'(2) n by linarith
  qed
  have u: "(1 + s) / (1 - s) < E"
  proof -
    have "1 + s < E * (1 - s)" using b'(1) by (simp add: algebra_simps)
    then show ?thesis using lt1 by (simp add: pos_divide_less_eq)
  qed
  have l: "1 / E < (1 + s) / (1 - s)"
  proof -
    have "1 * (1 - s) < (1 + s) * E" using b'(2) by (simp add: algebra_simps)
    then show ?thesis using lt1 E by (simp add: field_simps)
  qed
  show ?thesis using lt1 gt1 u l by simp
qed

lemma ratio_above:
  fixes s E :: real
  assumes E: "1 < E" and s: "(E - 1) / (E + 1) < s" and s1: "s < 1"
  shows "E < (1 + s) / (1 - s)"
proof -
  have E1: "0 < E + 1" using E by linarith
  have "E - 1 < s * (E + 1)" using s E1 by (simp add: pos_divide_less_eq)
  then have "E * (1 - s) < 1 + s" by (simp add: algebra_simps)
  then show ?thesis using s1 by (simp add: pos_less_divide_eq)
qed

lemma raw_y_range:
  fixes s :: real
  assumes "\<bar>s\<bar> < (exp (2 * pi) - 1) / (exp (2 * pi) + 1)"
  shows "- (2 * pi) < ln ((1 + s) / (1 - s)) \<and> ln ((1 + s) / (1 - s)) < 2 * pi"
proof -
  have E: "1 < exp (2 * pi)" by simp
  note a = ratio_below[OF E assms]
  have pos: "0 < (1 + s) / (1 - s)" using a by simp
  have "ln ((1 + s) / (1 - s)) < ln (exp (2 * pi))"
    using a pos by (intro ln_less_cancel_iff[THEN iffD2]) simp_all
  then have u: "ln ((1 + s) / (1 - s)) < 2 * pi" by simp
  have "exp (- (2 * pi)) < (1 + s) / (1 - s)"
    using a by (simp add: exp_minus inverse_eq_divide)
  then have "ln (exp (- (2 * pi))) < ln ((1 + s) / (1 - s))"
    using pos by (intro ln_less_cancel_iff[THEN iffD2]) simp_all
  then have l: "- (2 * pi) < ln ((1 + s) / (1 - s))" by simp
  show ?thesis using u l by simp
qed

lemma yLat_raw:
  "yLat (0.5 - 0.25 * L / pi) = 360 * arctan (exp (L / 2)) / pi - 90"
proof -
  have "(180 - (0.5 - 0.25 * L / pi) * 360) * pi / 180 = L / 2" by (simp add: field_simps)
  then show ?thesis unfolding yLat_def Let_def by simp
qed

text \<open>South of the equator: the two maps are odd around 1/2.\<close>

lemma latY_neg: "latY (- lat) = 1 - latY lat"
proof -
  let ?s = "sin (lat * pi / 180)"
  have m: "sin (- lat * pi / 180) = - ?s" by simp
  show ?thesis
  proof (cases "?s = 1 \<or> ?s = - 1")
    case True
    then show ?thesis unfolding latY_def m Let_def by auto
  next
    case False
    then have b: "- 1 < ?s" "?s < 1"
      using sin_le_one[of "lat * pi / 180"] sin_ge_minus_one[of "lat * pi / 180"] by linarith+
    define Y where "Y = 0.5 - 0.25 * ln ((1 + ?s) / (1 - ?s)) / pi"
    have "(1 + - ?s) / (1 - - ?s) = inverse ((1 + ?s) / (1 - ?s))" by simp
    then have "ln ((1 + - ?s) / (1 - - ?s)) = - ln ((1 + ?s) / (1 - ?s))"
      using b by (simp only: ln_inverse)
    then have "0.5 - 0.25 * ln ((1 + - ?s) / (1 - - ?s)) / pi = 1 - Y"
      unfolding Y_def by (simp add: field_simps)
    then have 1: "latY (- lat) = (if 1 - Y < 0 then 0 else if 1 - Y > 1 then 1 else 1 - Y)"
      using False unfolding latY_def m Let_def by (simp only: minus_minus) auto
    have 2: "latY lat = (if Y < 0 then 0 else if Y > 1 then 1 else Y)"
      using False unfolding latY_def Let_def Y_def by simp
    show ?thesis unfolding 1 2 by auto
  qed
qed

lemma yLat_neg: "yLat (1 - y) = - yLat y"
proof -
  let ?a = "(180 - y * 360) * pi / 180"
  have "(180 - (1 - y) * 360) * pi / 180 = - ?a" by (simp add: field_simps)
  then have "yLat (1 - y) = 360 * arctan (exp (- ?a)) / pi - 90"
    unfolding yLat_def Let_def by simp
  moreover have "arctan (exp (- ?a)) = pi / 2 - arctan (exp ?a)"
    using arctan_inverse[of "exp ?a"] by (simp add: exp_minus inverse_eq_divide)
  ultimately have "yLat (1 - y) = 360 * (pi / 2 - arctan (exp ?a)) / pi - 90" by simp
  also have "\<dots> = - (360 * arctan (exp ?a) / pi - 90)" by (simp add: field_simps)
  finally show ?thesis by (simp add: yLat_def Let_def)
qed

text \<open>
  Between the poles \<open>yLat\<close> undoes the unclamped \<open>y\<close>, and \<open>yLat\<close> is strictly decreasing:
  so \<open>y\<close> is positive exactly below \<open>yLat 0\<close>, and below 1 exactly above \<open>- yLat 0\<close>.
\<close>

lemma sin_open:
  assumes "\<bar>lat\<bar> < 90"
  shows "- 1 < sin (lat * pi / 180)" and "sin (lat * pi / 180) < 1"
proof -
  have "- 90 < lat" "lat < 90" using assms by linarith+
  then have t: "- (pi / 2) < lat * pi / 180" "lat * pi / 180 < pi / 2"
    using lat_angle[of "- 90" lat 90] by simp_all
  have "sin (- (pi / 2)) < sin (lat * pi / 180)"
    by (rule sin_monotone_2pi) (use t in simp_all)
  then show "- 1 < sin (lat * pi / 180)" by simp
  have "sin (lat * pi / 180) < sin (pi / 2)"
    by (rule sin_monotone_2pi) (use t in simp_all)
  then show "sin (lat * pi / 180) < 1" by simp
qed

lemma latY_rawY:
  assumes "\<bar>lat\<bar> < 90"
  shows "latY lat = (if rawY lat < 0 then 0 else if rawY lat > 1 then 1 else rawY lat)"
  using sin_open[OF assms] unfolding latY_def rawY_def Let_def by simp

lemma yLat_rawY:
  assumes "\<bar>lat\<bar> < 90"
  shows "yLat (rawY lat) = lat"
proof -
  let ?t = "lat * pi / 180"
  have "- 90 < lat" "lat < 90" using assms by linarith+
  then have "- (pi / 2) < ?t" "?t < pi / 2"
    using lat_angle[of "- 90" lat 90] by simp_all
  then have "arctan (exp (ln ((1 + sin ?t) / (1 - sin ?t)) / 2)) = pi / 4 + ?t / 2"
    by (rule mercator_arctan)
  then have "yLat (rawY lat) = 360 * (pi / 4 + ?t / 2) / pi - 90"
    unfolding rawY_def yLat_raw by simp
  also have "\<dots> = lat" by (simp add: field_simps)
  finally show ?thesis .
qed

lemma yLat_antimono:
  assumes "y1 < y2"
  shows "yLat y2 < yLat y1"
proof -
  have "(180 - y2 * 360) * pi / 180 < (180 - y1 * 360) * pi / 180"
    using assms pi_gt_zero by (simp add: divide_strict_right_mono mult_strict_right_mono)
  then have "arctan (exp ((180 - y2 * 360) * pi / 180)) < arctan (exp ((180 - y1 * 360) * pi / 180))"
    by (simp add: arctan_less_iff)
  then have "360 * arctan (exp ((180 - y2 * 360) * pi / 180))
           < 360 * arctan (exp ((180 - y1 * 360) * pi / 180))"
    by (rule mult_strict_left_mono) simp
  then have "360 * arctan (exp ((180 - y2 * 360) * pi / 180)) / pi
           < 360 * arctan (exp ((180 - y1 * 360) * pi / 180)) / pi"
    using pi_gt_zero by (rule divide_strict_right_mono)
  then show ?thesis unfolding yLat_def Let_def by simp
qed

lemma yLat_0_range: "0 < yLat 0" "yLat 0 < 90"
proof -
  have e: "yLat 0 = 360 * arctan (exp pi) / pi - 90" by (simp add: yLat_def)
  have "arctan 1 < arctan (exp pi)" unfolding arctan_less_iff using pi_gt_zero by simp
  then have a: "pi / 4 < arctan (exp pi)" by (simp add: arctan_one)
  have "360 * (pi / 4) < 360 * arctan (exp pi)" by (rule mult_strict_left_mono[OF a]) simp
  then have "360 * (pi / 4) / pi < 360 * arctan (exp pi) / pi"
    using pi_gt_zero by (rule divide_strict_right_mono)
  moreover have "360 * (pi / 4) / pi = 90" by simp
  ultimately show "0 < yLat 0" unfolding e by linarith
  have b: "arctan (exp pi) < pi / 2" by (rule arctan_ubound)
  have "360 * arctan (exp pi) < 360 * (pi / 2)" by (rule mult_strict_left_mono[OF b]) simp
  then have "360 * arctan (exp pi) / pi < 360 * (pi / 2) / pi"
    using pi_gt_zero by (rule divide_strict_right_mono)
  moreover have "360 * (pi / 2) / pi = 180" by simp
  ultimately show "yLat 0 < 90" unfolding e by linarith
qed

lemma yLat_1: "yLat 1 = - yLat 0"
  using yLat_neg[of 0] by simp

lemma rawY_pos_iff:
  assumes "\<bar>lat\<bar> < 90"
  shows "0 < rawY lat \<longleftrightarrow> lat < yLat 0"
proof
  assume "0 < rawY lat"
  then have "yLat (rawY lat) < yLat 0" by (rule yLat_antimono)
  then show "lat < yLat 0" unfolding yLat_rawY[OF assms] .
next
  assume a: "lat < yLat 0"
  show "0 < rawY lat"
  proof (rule ccontr)
    assume "\<not> 0 < rawY lat"
    then have "rawY lat < 0 \<or> rawY lat = 0" by linarith
    then have "yLat 0 \<le> yLat (rawY lat)" using yLat_antimono[of "rawY lat" 0] by auto
    then show False using a unfolding yLat_rawY[OF assms] by simp
  qed
qed

lemma rawY_lt_1_iff:
  assumes "\<bar>lat\<bar> < 90"
  shows "rawY lat < 1 \<longleftrightarrow> - yLat 0 < lat"
proof
  assume "rawY lat < 1"
  then have "yLat 1 < yLat (rawY lat)" by (rule yLat_antimono)
  then show "- yLat 0 < lat" unfolding yLat_rawY[OF assms] yLat_1 .
next
  assume a: "- yLat 0 < lat"
  show "rawY lat < 1"
  proof (rule ccontr)
    assume "\<not> rawY lat < 1"
    then have "1 < rawY lat \<or> rawY lat = 1" by linarith
    then have "yLat (rawY lat) \<le> yLat 1" using yLat_antimono[of 1 "rawY lat"] by auto
    then show False using a unfolding yLat_rawY[OF assms] yLat_1 by simp
  qed
qed

lemma latY_below_threshold:
  assumes "\<bar>lat\<bar> < yLat 0"
  shows "0 < latY lat" and "latY lat < 1" and "yLat (latY lat) = lat"
proof -
  have b: "\<bar>lat\<bar> < 90" using assms yLat_0_range(2) by linarith
  have "lat < yLat 0" "- yLat 0 < lat" using assms by linarith+
  then have r: "0 < rawY lat" "rawY lat < 1"
    using rawY_pos_iff[OF b] rawY_lt_1_iff[OF b] by simp_all
  then have e: "latY lat = rawY lat" unfolding latY_rawY[OF b] by simp
  show "0 < latY lat" "latY lat < 1" unfolding e using r by simp_all
  show "yLat (latY lat) = lat" unfolding e by (rule yLat_rawY[OF b])
qed

lemma latY_north:
  assumes "yLat 0 \<le> lat" and "lat \<le> 90"
  shows "latY lat = 0"
proof (cases "lat = 90")
  case True
  then show ?thesis by (simp add: latY_def)
next
  case False
  then have b: "\<bar>lat\<bar> < 90" using assms yLat_0_range(1) by linarith
  have "\<not> 0 < rawY lat" unfolding rawY_pos_iff[OF b] using assms by simp
  then show ?thesis unfolding latY_rawY[OF b] by auto
qed

lemma latY_south:
  assumes "- 90 \<le> lat" and "lat \<le> - yLat 0"
  shows "latY lat = 1"
proof -
  have "latY (- lat) = 0" by (rule latY_north) (use assms in simp_all)
  then show ?thesis using latY_neg[of "- lat"] by simp
qed

lemma latY_at_threshold:
  assumes "yLat 0 \<le> \<bar>lat\<bar>" and "\<bar>lat\<bar> \<le> 90"
  shows "(latY lat = 0 \<or> latY lat = 1) \<and> \<bar>yLat (latY lat)\<bar> = yLat 0 \<and>
         (yLat (latY lat) = lat \<longleftrightarrow> \<bar>lat\<bar> = yLat 0)"
proof (cases "0 \<le> lat")
  case True
  then have "latY lat = 0" using assms by (intro latY_north) simp_all
  then show ?thesis using True yLat_0_range(1) by auto
next
  case False
  then have "latY lat = 1" using assms by (intro latY_south) simp_all
  then show ?thesis using False yLat_0_range(1) yLat_1 by auto
qed

text \<open>The threshold \<open>yLat 0\<close> lies between 85.051 and 85.052 degrees.\<close>

lemma yLat_0_lower: "85051 / 1000 < yLat 0"
proof -
  let ?lat = "85051 / 1000 :: real"
  let ?s = "sin (?lat * pi / 180)"
  have b: "\<bar>?lat\<bar> < 90" by simp
  have "?lat * pi / 180 = pi / 2 - 4949 / 180000 * pi" by simp
  then have "?s = sin (pi / 2 - 4949 / 180000 * pi)" by simp
  also have "\<dots> = cos (4949 / 180000 * pi)" by (simp only: sin_diff) simp
  finally have s: "?s = cos (4949 / 180000 * pi)" .
  have "0 \<le> cos (4949 / 180000 * pi)"
    by (rule cos_ge_zero) (use pi_gt_zero in simp_all)
  then have "\<bar>?s\<bar> < (exp (2 * pi) - 1) / (exp (2 * pi) + 1)"
    unfolding s using cos_4949_lt_tanh by simp
  then have "ln ((1 + ?s) / (1 - ?s)) < 2 * pi" using raw_y_range by blast
  then have "0 < rawY ?lat" unfolding rawY_def using pi_gt_zero by (simp add: field_simps)
  then show ?thesis unfolding rawY_pos_iff[OF b] .
qed

lemma yLat_0_upper: "yLat 0 < 85052 / 1000"
proof -
  let ?lat = "85052 / 1000 :: real"
  let ?s = "sin (?lat * pi / 180)"
  have b: "\<bar>?lat\<bar> < 90" by simp
  have "?lat * pi / 180 = pi / 2 - 4948 / 180000 * pi" by simp
  then have "?s = sin (pi / 2 - 4948 / 180000 * pi)" by simp
  also have "\<dots> = cos (4948 / 180000 * pi)" by (simp only: sin_diff) simp
  finally have s: "?s = cos (4948 / 180000 * pi)" .
  have t: "(exp (2 * pi) - 1) / (exp (2 * pi) + 1) < ?s" unfolding s by (rule tanh_lt_cos_4948)
  have s1: "?s < 1" by (rule sin_open(2)[OF b])
  have E: "1 < exp (2 * pi)" by simp
  have u: "exp (2 * pi) < (1 + ?s) / (1 - ?s)" by (rule ratio_above[OF E t s1])
  have "ln (exp (2 * pi)) < ln ((1 + ?s) / (1 - ?s))"
    using u by (intro ln_less_cancel_iff[THEN iffD2]) (simp_all add: less_trans[OF exp_gt_zero])
  then have "2 * pi < ln ((1 + ?s) / (1 - ?s))" by simp
  then have "rawY ?lat < 0" unfolding rawY_def using pi_gt_zero by (simp add: field_simps)
  then have "yLat 0 < yLat (rawY ?lat)" by (rule yLat_antimono)
  then show ?thesis unfolding yLat_rawY[OF b] .
qed

lemma latY_100: "latY 100 = latY 80"
proof -
  have "sin (100 * pi / 180) = sin (pi - 80 * pi / 180)" by simp
  also have "\<dots> = sin (80 * pi / 180)" by (simp only: sin_pi_minus)
  finally show ?thesis unfolding latY_def by simp
qed

text \<open>
  C6, amended. \<open>xLng(lngX(l))\<close> is \<open>l\<close> only up to rounding: in doubles it is a finite number
  within \<open>(5 * \<bar>l\<bar> + 181) / 2 ^ 53\<close> of \<open>l\<close>, for every \<open>l\<close> up to \<open>2 ^ 1000\<close> in size, and it
  need not be \<open>l\<close>. For the latitude the formulas are taken over the reals, where equal
  within floating-point tolerance reads as equal (what \<open>Math.sin\<close>, \<open>Math.log\<close>, \<open>Math.exp\<close>
  and \<open>Math.atan\<close> round to is not fixed by the source). The threshold of saturation is
  \<open>yLat 0\<close>, between 85.051 and 85.052 degrees, not 85.05: strictly below it, on either side
  of the equator, \<open>latY\<close> is strictly between 0 and 1 and \<open>yLat (latY l) = l\<close>; from it to
  the pole \<open>latY\<close> saturates (it returns 0 or 1) and \<open>yLat (latY l)\<close> is the threshold, with
  the sign of \<open>l\<close>, so the latitude comes back only if it is the threshold itself.
\<close>

theorem projection_roundtrip:
  "(\<forall>l. \<bar>l\<bar> \<le> 2 ^ 1000 \<longrightarrow>
      (\<exists>r. roundtrip_lng l = Some r \<and> \<bar>r - l\<bar> \<le> (5 * \<bar>l\<bar> + 181) / 2 ^ 53)) \<and>
   85051 / 1000 < yLat 0 \<and> yLat 0 < 85052 / 1000 \<and>
   (\<forall>l. \<bar>l\<bar> < yLat 0 \<longrightarrow> 0 < latY l \<and> latY l < 1 \<and> yLat (latY l) = l) \<and>
   (\<forall>l. yLat 0 \<le> \<bar>l\<bar> \<and> \<bar>l\<bar> \<le> 90 \<longrightarrow>
      (latY l = 0 \<or> latY l = 1) \<and> \<bar>yLat (latY l)\<bar> = yLat 0 \<and>
      (yLat (latY l) = l \<longleftrightarrow> \<bar>l\<bar> = yLat 0))"
proof (intro conjI allI impI)
  fix l :: real
  assume "\<bar>l\<bar> \<le> 2 ^ 1000"
  then show "\<exists>r. roundtrip_lng l = Some r \<and> \<bar>r - l\<bar> \<le> (5 * \<bar>l\<bar> + 181) / 2 ^ 53"
    by (rule roundtrip_lng_close)
next
  show "85051 / 1000 < yLat 0" by (rule yLat_0_lower)
next
  show "yLat 0 < 85052 / 1000" by (rule yLat_0_upper)
next
  fix l assume "\<bar>l\<bar> < yLat 0"
  then show "0 < latY l" "latY l < 1" "yLat (latY l) = l"
    by (rule latY_below_threshold)+
next
  fix l assume a: "yLat 0 \<le> \<bar>l\<bar> \<and> \<bar>l\<bar> \<le> 90"
  then have "(latY l = 0 \<or> latY l = 1) \<and> \<bar>yLat (latY l)\<bar> = yLat 0 \<and>
         (yLat (latY l) = l \<longleftrightarrow> \<bar>l\<bar> = yLat 0)"
    by (intro latY_at_threshold) simp_all
  then show "latY l = 0 \<or> latY l = 1" "\<bar>yLat (latY l)\<bar> = yLat 0"
    "yLat (latY l) = l \<longleftrightarrow> \<bar>l\<bar> = yLat 0"
    by blast+
qed

theorem projection_roundtrip_witness:
  "roundtrip_lng 10 = Some (10 + 1 / 2 ^ 48) \<and>
   \<bar>(10 + 1 / 2 ^ 48) - 10 :: real\<bar> \<le> (5 * \<bar>10\<bar> + 181) / 2 ^ 53 \<and>
   0 < latY 0 \<and> latY 0 < 1 \<and> yLat (latY 0) = 0 \<and>
   latY 90 = 0 \<and> yLat (latY 90) \<noteq> 90 \<and>
   latY (- 86) = 1 \<and> yLat (latY (- 86)) \<noteq> - 86"
proof -
  note t = projection_roundtrip
  have lo: "85051 / 1000 < yLat 0" and hi: "yLat 0 < 85052 / 1000" using t by blast+
  have "\<bar>10 :: real\<bar> \<le> 2 ^ 1000" by simp
  then obtain r where r: "roundtrip_lng 10 = Some r" "\<bar>r - 10\<bar> \<le> (5 * \<bar>10\<bar> + 181) / 2 ^ 53"
    using t by blast
  have r10: "r = 10 + 1 / 2 ^ 48" using r(1) roundtrip_lng_10 by simp
  have "\<bar>0 :: real\<bar> < yLat 0" using lo by simp
  then have a: "0 < latY 0 \<and> latY 0 < 1 \<and> yLat (latY 0) = 0" using t by blast
  have "yLat 0 \<le> \<bar>90 :: real\<bar> \<and> \<bar>90 :: real\<bar> \<le> 90" using hi by simp
  then have "yLat (latY 90) = 90 \<longleftrightarrow> \<bar>90 :: real\<bar> = yLat 0" using t by blast
  then have b: "yLat (latY 90) \<noteq> 90" using hi by simp
  have "yLat 0 \<le> \<bar>- 86 :: real\<bar> \<and> \<bar>- 86 :: real\<bar> \<le> 90" using hi by simp
  then have "yLat (latY (- 86)) = - 86 \<longleftrightarrow> \<bar>- 86 :: real\<bar> = yLat 0" using t by blast
  then have c: "yLat (latY (- 86)) \<noteq> - 86" using hi by simp
  have p: "latY 90 = 0" by (simp add: latY_def)
  have s: "latY (- 86) = 1" using latY_south[of "- 86"] hi by simp
  show ?thesis using r r10 a b c p s by simp
qed

text \<open>
  The claim C6 as it is written fails in three places. In doubles \<open>xLng(lngX(10))\<close> is
  \<open>10 + 2 powi (- 48)\<close>, printed 10.000000000000004, not 10: \<open>10 / 360 + 0.5\<close> keeps 53 bits
  of a number near 0.53, and the five lowest bits of \<open>10 / 360\<close> are lost. The latitude
  85.051 is outside the band (-85.05, 85.05), and \<open>latY\<close> does not saturate there. And
  beyond the pole \<open>latY\<close> does not saturate either: at 100 degrees it returns a value
  strictly between 0 and 1, the one of 80 degrees.
\<close>

theorem projection_roundtrip_counterexample:
  "fl 10 = Some 10 \<and> roundtrip_lng 10 = Some (10 + 1 / 2 ^ 48) \<and> roundtrip_lng 10 \<noteq> Some 10 \<and>
   (8505 / 100 :: real) \<le> 85051 / 1000 \<and> 0 < latY (85051 / 1000) \<and> latY (85051 / 1000) < 1 \<and>
   (8505 / 100 :: real) \<le> 100 \<and> 0 < latY 100 \<and> latY 100 < 1"
proof -
  have 1: "fl 10 = Some 10"
    by (rule fl_eval[of 3 _ 5629499534213120, THEN trans])
       (simp_all add: power_int_minus rne_def)
  have 2: "roundtrip_lng 10 \<noteq> Some 10" unfolding roundtrip_lng_10 by simp
  have "\<bar>85051 / 1000 :: real\<bar> < yLat 0" using yLat_0_lower by simp
  note 3 = latY_below_threshold(1,2)[OF this]
  have "\<bar>80 :: real\<bar> < yLat 0" using yLat_0_lower by simp
  note 4 = latY_below_threshold(1,2)[OF this]
  show ?thesis using 1 2 3 4 roundtrip_lng_10 latY_100 by simp
qed

end
